theory Spec2Isabelle
  imports Main "HOL-Library.Word" "HOL-Library.FSet" "HOL-Library.Multiset"
begin

section \<open>The downloader's peer sessions and peer set (ctxc/downloader/peer.go)\<close>

text \<open>
  The model is sequential: one call runs at a time, so an atomic flag is a boolean field
  and a lock is nothing. What a call reads from outside the session is an argument of
  its model: the clock (\<open>now\<close>), the entry a \<open>range\<close> over a map yields first
  (\<open>pick\<close>), the order in which a \<open>range\<close> visits a map (\<open>order\<close>) and the
  arrangement \<open>sort.Sort\<close> leaves behind (\<open>sortf\<close>). A request handed to the remote
  peer in a goroutine is an output of the call.
\<close>

subsection \<open>Values\<close>

text \<open>\<open>common.Hash\<close> is an array of 32 bytes.\<close>

type_synonym Hash = "256 word"

text \<open>
  \<open>time.Time\<close> as nanoseconds on the wall clock, \<open>time.Duration\<close> as Go has it: a
  signed 64-bit count of nanoseconds. \<open>Time.Sub\<close> saturates at the ends of that range.
\<close>

type_synonym Time = int
type_synonym Duration = int

definition maxDuration :: Duration where
  "maxDuration = 2 ^ 63 - 1"

definition minDuration :: Duration where
  "minDuration = - (2 ^ 63)"

definition Sub :: "Time \<Rightarrow> Time \<Rightarrow> Duration" where
  "Sub t u = max minDuration (min maxDuration (t - u))"

definition Second :: Duration where
  "Second = 1000000000"

text \<open>The message codes of package \<open>ctxc\<close> that peer.go names: four distinct constants.\<close>

datatype msg = BlockHeadersMsg | BlockBodiesMsg | NodeDataMsg | ReceiptsMsg

datatype error =
    errAlreadyFetching
  | errAlreadyRegistered
  | errNotRegistered
  | errAlreadyTracking

text \<open>A call either panics or returns.\<close>

datatype 'a outcome = Panic | Done 'a

subsection \<open>The rate tracker (package msgrate)\<close>

text \<open>
  Modelled from the spec: package \<open>p2p/msgrate\<close> is not among the sources. The spec
  gives a tracker two operations, "record an observed delivery (kind, elapsed time, item
  count)" and "estimate capacity (kind, target round-trip time)", and the aggregate
  "register/deregister hooks keyed by session id". A tracker is modelled by what it was
  made from and the deliveries recorded into it, in order; the estimate is a function of
  that, taken as the parameter \<open>Capacity\<close> wherever it is read.
\<close>

typedecl float64

record Tracker =
  seed_capacity :: "msg \<rightharpoonup> float64"
  seed_roundtrip :: Duration
  deliveries :: "(msg \<times> Duration \<times> int) list"

definition NewTracker :: "(msg \<rightharpoonup> float64) \<Rightarrow> Duration \<Rightarrow> Tracker" where
  "NewTracker caps rtt = \<lparr>seed_capacity = caps, seed_roundtrip = rtt, deliveries = []\<rparr>"

definition Update :: "Tracker \<Rightarrow> msg \<Rightarrow> Duration \<Rightarrow> int \<Rightarrow> Tracker" where
  "Update t kind elapsed items = t\<lparr>deliveries := deliveries t @ [(kind, elapsed, items)]\<rparr>"

type_synonym Trackers = "string \<rightharpoonup> Tracker"

text \<open>
  Modelled from the spec: \<open>Trackers.Track\<close> refuses an id it already tracks,
  \<open>Trackers.Untrack\<close> forgets an id (its own error is dropped by the caller).
\<close>

definition Track :: "Trackers \<Rightarrow> string \<Rightarrow> Tracker \<Rightarrow> error + Trackers" where
  "Track ts i t = (if i \<in> dom ts then Inl errAlreadyTracking else Inr (ts(i \<mapsto> t)))"

definition Untrack :: "Trackers \<Rightarrow> string \<Rightarrow> Trackers" where
  "Untrack ts i = ts(i := None)"

subsection \<open>The remote peer\<close>

text \<open>The requests of interface \<open>Peer\<close> that a fetch issues.\<close>

datatype request =
    RequestHeadersByNumber "64 word" int int bool
  | RequestBodies "Hash list"
  | RequestReceipts "Hash list"
  | RequestNodeData "Hash list"

text \<open>
  A \<open>fetchRequest\<close> is read for its headers only; a header's hash is computed outside
  this file (\<open>hashOf\<close>).
\<close>

typedecl Header

record fetchRequest =
  Headers :: "Header list"

subsection \<open>peerConnection\<close>

text \<open>
  The four activity flags are \<open>atomic.Bool\<close>: \<open>False\<close> is idle, \<open>True\<close> is
  active. \<open>rates\<close> is a pointer, \<open>nil\<close> until \<open>Register\<close> sets it. \<open>lacking\<close>
  is a Go map used as a set, hence finite.
\<close>

record peerConnection =
  id' :: string
  headerIdle :: bool
  blockIdle :: bool
  receiptIdle :: bool
  stateIdle :: bool
  headerStarted :: Time
  blockStarted :: Time
  receiptStarted :: Time
  stateStarted :: Time
  rates :: "Tracker option"
  lacking :: "Hash fset"
  version :: nat

definition maxLackingHashes :: nat where
  "maxLackingHashes = 4096"

text \<open>The zero \<open>time.Time\<close> is the first instant of year 1, long before the clock's origin.\<close>

definition zeroTime :: Time where
  "zeroTime = - 62135596800 * 1000000000"

definition newPeerConnection :: "string \<Rightarrow> nat \<Rightarrow> peerConnection" where
  "newPeerConnection i v =
     \<lparr>id' = i, headerIdle = False, blockIdle = False, receiptIdle = False, stateIdle = False,
      headerStarted = zeroTime, blockStarted = zeroTime, receiptStarted = zeroTime,
      stateStarted = zeroTime, rates = None, lacking = {||}, version = v\<rparr>"

definition Reset :: "peerConnection \<Rightarrow> peerConnection" where
  "Reset p = p\<lparr>headerIdle := False, blockIdle := False, receiptIdle := False,
               stateIdle := False, lacking := {||}\<rparr>"

text \<open>
  A fetch returns the error (or none), the session as the call leaves it, and the
  requests it hands to the remote peer. \<open>CompareAndSwap(false, true)\<close> fails exactly
  when the flag is already \<open>True\<close>.
\<close>

type_synonym fetched = "(error option \<times> peerConnection \<times> request list) outcome"

definition FetchHeaders :: "Time \<Rightarrow> peerConnection \<Rightarrow> 64 word \<Rightarrow> int \<Rightarrow> fetched" where
  "FetchHeaders now p from' count' =
     (if version p < 62 then Panic
      else if headerIdle p then Done (Some errAlreadyFetching, p, [])
      else Done (None, p\<lparr>headerIdle := True, headerStarted := now\<rparr>,
                 [RequestHeadersByNumber from' count' 0 False]))"

definition FetchBodies ::
  "(Header \<Rightarrow> Hash) \<Rightarrow> Time \<Rightarrow> peerConnection \<Rightarrow> fetchRequest \<Rightarrow> fetched" where
  "FetchBodies hashOf now p req =
     (if version p < 62 then Panic
      else if blockIdle p then Done (Some errAlreadyFetching, p, [])
      else Done (None, p\<lparr>blockIdle := True, blockStarted := now\<rparr>,
                 [RequestBodies (map hashOf (Headers req))]))"

definition FetchReceipts ::
  "(Header \<Rightarrow> Hash) \<Rightarrow> Time \<Rightarrow> peerConnection \<Rightarrow> fetchRequest \<Rightarrow> fetched" where
  "FetchReceipts hashOf now p req =
     (if version p < 63 then Panic
      else if receiptIdle p then Done (Some errAlreadyFetching, p, [])
      else Done (None, p\<lparr>receiptIdle := True, receiptStarted := now\<rparr>,
                 [RequestReceipts (map hashOf (Headers req))]))"

definition FetchNodeData :: "Time \<Rightarrow> peerConnection \<Rightarrow> Hash list \<Rightarrow> fetched" where
  "FetchNodeData now p hashes =
     (if version p < 63 then Panic
      else if stateIdle p then Done (Some errAlreadyFetching, p, [])
      else Done (None, p\<lparr>stateIdle := True, stateStarted := now\<rparr>,
                 [RequestNodeData hashes]))"

text \<open>
  The completions call \<open>p.rates.Update\<close>, which dereferences the tracker: on a session
  that was never registered the pointer is \<open>nil\<close> and the call panics.
\<close>

definition SetHeadersIdle :: "peerConnection \<Rightarrow> int \<Rightarrow> Time \<Rightarrow> peerConnection outcome" where
  "SetHeadersIdle p delivered deliveryTime =
     (case rates p of
        None \<Rightarrow> Panic
      | Some t \<Rightarrow>
          Done (p\<lparr>rates := Some (Update t BlockHeadersMsg (Sub deliveryTime (headerStarted p)) delivered),
                  headerIdle := False\<rparr>))"

definition SetBodiesIdle :: "peerConnection \<Rightarrow> int \<Rightarrow> Time \<Rightarrow> peerConnection outcome" where
  "SetBodiesIdle p delivered deliveryTime =
     (case rates p of
        None \<Rightarrow> Panic
      | Some t \<Rightarrow>
          Done (p\<lparr>rates := Some (Update t BlockBodiesMsg (Sub deliveryTime (blockStarted p)) delivered),
                  blockIdle := False\<rparr>))"

definition SetReceiptsIdle :: "peerConnection \<Rightarrow> int \<Rightarrow> Time \<Rightarrow> peerConnection outcome" where
  "SetReceiptsIdle p delivered deliveryTime =
     (case rates p of
        None \<Rightarrow> Panic
      | Some t \<Rightarrow>
          Done (p\<lparr>rates := Some (Update t ReceiptsMsg (Sub deliveryTime (receiptStarted p)) delivered),
                  receiptIdle := False\<rparr>))"

definition SetNodeDataIdle :: "peerConnection \<Rightarrow> int \<Rightarrow> Time \<Rightarrow> peerConnection outcome" where
  "SetNodeDataIdle p delivered deliveryTime =
     (case rates p of
        None \<Rightarrow> Panic
      | Some t \<Rightarrow>
          Done (p\<lparr>rates := Some (Update t NodeDataMsg (Sub deliveryTime (stateStarted p)) delivered),
                  stateIdle := False\<rparr>))"

text \<open>
  \<open>MarkLacking\<close> drops entries while the set is full, each time the entry a \<open>range\<close>
  over the map yields first, then inserts. Which entry that is, Go leaves to the runtime:
  \<open>pick\<close> numbers it among the entries of the set as it stands.
\<close>

definition range_first :: "(Hash fset \<Rightarrow> nat) \<Rightarrow> Hash fset \<Rightarrow> Hash" where
  "range_first pick L = sorted_list_of_fset L ! (pick L mod fcard L)"

function dropWhileFull :: "(Hash fset \<Rightarrow> nat) \<Rightarrow> Hash fset \<Rightarrow> Hash fset" where
  "dropWhileFull pick L =
     (if maxLackingHashes \<le> fcard L then dropWhileFull pick (L |-| {|range_first pick L|})
      else L)"
  by pat_completeness auto
termination
proof (relation "measure (\<lambda>(pick, L). fcard L)")
  show "wf (measure (\<lambda>(pick, L). fcard L))"
    by simp
next
  fix pick :: "Hash fset \<Rightarrow> nat" and L :: "Hash fset"
  assume full: "maxLackingHashes \<le> fcard L"
  then have pos: "0 < fcard L"
    by (simp add: maxLackingHashes_def)
  have "length (sorted_list_of_fset L) = fcard L"
    by (simp add: sorted_list_of_fset.rep_eq fcard.rep_eq)
  with pos have "pick L mod fcard L < length (sorted_list_of_fset L)"
    by simp
  then have "sorted_list_of_fset L ! (pick L mod fcard L) \<in> set (sorted_list_of_fset L)"
    by (rule nth_mem)
  then have "range_first pick L |\<in>| L"
    by (simp add: range_first_def)
  then have "fcard (L |-| {|range_first pick L|}) < fcard L"
    by (rule fcard_fminus1_less)
  then show "((pick, L |-| {|range_first pick L|}), (pick, L)) \<in> measure (\<lambda>(pick, L). fcard L)"
    by (simp del: fcard_fminus_finsert)
qed

declare dropWhileFull.simps [simp del]

definition MarkLacking :: "(Hash fset \<Rightarrow> nat) \<Rightarrow> Hash \<Rightarrow> peerConnection \<Rightarrow> peerConnection" where
  "MarkLacking pick hash p = p\<lparr>lacking := finsert hash (dropWhileFull pick (lacking p))\<rparr>"

definition Lacks :: "peerConnection \<Rightarrow> Hash \<Rightarrow> bool" where
  "Lacks p hash = (hash |\<in>| lacking p)"

text \<open>
  The sessions a caller can hold: a new one, and what the operations above make of one
  that is reachable. \<open>Register\<close> is seen here by its one effect on the session, the
  assignment of a tracker.
\<close>

inductive session :: "peerConnection \<Rightarrow> bool" where
  session_new: "session (newPeerConnection i v)"
| session_Reset: "session p \<Longrightarrow> session (Reset p)"
| session_FetchHeaders:
    "session p \<Longrightarrow> FetchHeaders now p from' count' = Done (e, q, rs) \<Longrightarrow> session q"
| session_FetchBodies:
    "session p \<Longrightarrow> FetchBodies hashOf now p req = Done (e, q, rs) \<Longrightarrow> session q"
| session_FetchReceipts:
    "session p \<Longrightarrow> FetchReceipts hashOf now p req = Done (e, q, rs) \<Longrightarrow> session q"
| session_FetchNodeData:
    "session p \<Longrightarrow> FetchNodeData now p hashes = Done (e, q, rs) \<Longrightarrow> session q"
| session_SetHeadersIdle:
    "session p \<Longrightarrow> SetHeadersIdle p delivered deliveryTime = Done q \<Longrightarrow> session q"
| session_SetBodiesIdle:
    "session p \<Longrightarrow> SetBodiesIdle p delivered deliveryTime = Done q \<Longrightarrow> session q"
| session_SetReceiptsIdle:
    "session p \<Longrightarrow> SetReceiptsIdle p delivered deliveryTime = Done q \<Longrightarrow> session q"
| session_SetNodeDataIdle:
    "session p \<Longrightarrow> SetNodeDataIdle p delivered deliveryTime = Done q \<Longrightarrow> session q"
| session_MarkLacking: "session p \<Longrightarrow> session (MarkLacking pick hash p)"
| session_rates: "session p \<Longrightarrow> session (p\<lparr>rates := Some t\<rparr>)"

text \<open>The error a fetch returned, if it returned one.\<close>

fun returned_error :: "fetched \<Rightarrow> error option" where
  "returned_error Panic = None"
| "returned_error (Done (e, q, rs)) = e"

subsection \<open>peerSet\<close>

text \<open>
  The map holds pointers: a registered session is the one object its caller holds, so the
  map's entry stands for the session itself. The two feeds are modelled by what was sent
  on them, oldest first. The collection of trackers holds, under an id, the tracker as
  \<open>Track\<close> received it.
\<close>

record peerSet =
  peers :: "string \<rightharpoonup> peerConnection"
  ps_rates :: Trackers
  newPeerFeed :: "peerConnection list"
  peerDropFeed :: "peerConnection list"

definition newPeerSet :: peerSet where
  "newPeerSet = \<lparr>peers = Map.empty, ps_rates = Map.empty, newPeerFeed = [], peerDropFeed = []\<rparr>"

text \<open>
  A \<open>range\<close> over a Go map visits every entry once, in an order of the runtime's
  choosing: \<open>order\<close> lists the keys in the order of one such visit.
\<close>

definition ranges :: "('k \<rightharpoonup> 'v) \<Rightarrow> 'k list \<Rightarrow> bool" where
  "ranges m order = (distinct order \<and> set order = dom m)"

definition range_values :: "('k \<rightharpoonup> 'v) \<Rightarrow> 'k list \<Rightarrow> 'v list" where
  "range_values m order = List.map_filter m order"

definition peerSet_Reset :: "string list \<Rightarrow> peerSet \<Rightarrow> peerSet" where
  "peerSet_Reset order ps =
     ps\<lparr>peers := fold (\<lambda>k m. case m k of None \<Rightarrow> m | Some p \<Rightarrow> m(k \<mapsto> Reset p)) order (peers ps)\<rparr>"

text \<open>
  \<open>Register\<close> returns the error (or none), the set and the session as the call leaves
  them. The tracker is assigned to the session before \<open>Track\<close> is tried.
\<close>

definition Register ::
  "(Trackers \<Rightarrow> msg \<rightharpoonup> float64) \<Rightarrow> (Trackers \<Rightarrow> Duration) \<Rightarrow> peerSet \<Rightarrow> peerConnection \<Rightarrow>
     error option \<times> peerSet \<times> peerConnection" where
  "Register MeanCapacities MedianRoundTrip ps p =
     (if id' p \<in> dom (peers ps) then (Some errAlreadyRegistered, ps, p)
      else
        let t = NewTracker (MeanCapacities (ps_rates ps)) (MedianRoundTrip (ps_rates ps));
            q = p\<lparr>rates := Some t\<rparr>
        in case Track (ps_rates ps) (id' q) t of
             Inl err \<Rightarrow> (Some err, ps, q)
           | Inr ts \<Rightarrow>
               (None,
                ps\<lparr>peers := (peers ps)(id' q \<mapsto> q), ps_rates := ts,
                   newPeerFeed := newPeerFeed ps @ [q]\<rparr>,
                q))"

definition Unregister :: "peerSet \<Rightarrow> string \<Rightarrow> error option \<times> peerSet" where
  "Unregister ps i =
     (case peers ps i of
        None \<Rightarrow> (Some errNotRegistered, ps)
      | Some p \<Rightarrow>
          (None,
           ps\<lparr>peers := (peers ps)(i := None), ps_rates := Untrack (ps_rates ps) i,
              peerDropFeed := peerDropFeed ps @ [p]\<rparr>))"

definition Peer :: "peerSet \<Rightarrow> string \<Rightarrow> peerConnection option" where
  "Peer ps i = peers ps i"

text \<open>
  \<open>peerCapacitySort\<close> with its three methods of \<open>sort.Interface\<close>. \<open>Swap\<close> moves a
  session and its throughput together.
\<close>

record peerCapacitySort =
  sort_p :: "peerConnection list"
  sort_tp :: "int list"

definition Len :: "peerCapacitySort \<Rightarrow> nat" where
  "Len d = length (sort_p d)"

definition Less :: "peerCapacitySort \<Rightarrow> nat \<Rightarrow> nat \<Rightarrow> bool" where
  "Less d i j = (sort_tp d ! i > sort_tp d ! j)"

definition Swap :: "peerCapacitySort \<Rightarrow> nat \<Rightarrow> nat \<Rightarrow> peerCapacitySort" where
  "Swap d i j =
     d\<lparr>sort_p := (sort_p d)[i := sort_p d ! j, j := sort_p d ! i],
       sort_tp := (sort_tp d)[i := sort_tp d ! j, j := sort_tp d ! i]\<rparr>"

text \<open>
  \<open>sort.Sort\<close> is Go's library, known here by its documentation: it rearranges the data
  through calls of \<open>Swap\<close> at indices below \<open>Len\<close>, leaves it in ascending order "as
  determined by the Less method" (no later element is \<open>Less\<close> than an earlier one), and
  "is not guaranteed to be stable". \<open>sort_Sort d e\<close>: the call may turn \<open>d\<close> into
  \<open>e\<close>.
\<close>

inductive swapped :: "peerCapacitySort \<Rightarrow> peerCapacitySort \<Rightarrow> bool" where
  swapped_none: "swapped d d"
| swapped_Swap: "swapped d e \<Longrightarrow> i < Len e \<Longrightarrow> j < Len e \<Longrightarrow> swapped d (Swap e i j)"

definition sort_Sort :: "peerCapacitySort \<Rightarrow> peerCapacitySort \<Rightarrow> bool" where
  "sort_Sort d e = (swapped d e \<and> (\<forall>j < Len e. \<forall>i < j. \<not> Less e j i))"

text \<open>
  The loop of \<open>idlePeers\<close> over the sessions as the \<open>range\<close> yields them, with the
  idle sessions, their throughputs and the total so far. The throughput callback
  dereferences the session's tracker and panics on \<open>nil\<close>.
\<close>

fun idlePeers_loop ::
  "nat \<Rightarrow> nat \<Rightarrow> (peerConnection \<Rightarrow> bool) \<Rightarrow> (peerConnection \<Rightarrow> int outcome) \<Rightarrow>
     peerConnection list \<Rightarrow> peerConnection list \<times> int list \<times> int \<Rightarrow>
     (peerConnection list \<times> int list \<times> int) outcome" where
  "idlePeers_loop minProtocol maxProtocol idleCheck capacity [] acc = Done acc"
| "idlePeers_loop minProtocol maxProtocol idleCheck capacity (p # rest) (idle, tps, total') =
     (if version p \<ge> minProtocol \<and> version p \<le> maxProtocol then
        (if idleCheck p then
           (case capacity p of
              Panic \<Rightarrow> Panic
            | Done c \<Rightarrow>
                idlePeers_loop minProtocol maxProtocol idleCheck capacity rest
                  (idle @ [p], tps @ [c], total' + 1))
         else idlePeers_loop minProtocol maxProtocol idleCheck capacity rest (idle, tps, total' + 1))
      else idlePeers_loop minProtocol maxProtocol idleCheck capacity rest (idle, tps, total'))"

definition idlePeers ::
  "string list \<Rightarrow> (peerCapacitySort \<Rightarrow> peerCapacitySort) \<Rightarrow> peerSet \<Rightarrow> nat \<Rightarrow> nat \<Rightarrow>
     (peerConnection \<Rightarrow> bool) \<Rightarrow> (peerConnection \<Rightarrow> int outcome) \<Rightarrow>
     (peerConnection list \<times> int) outcome" where
  "idlePeers order sortf ps minProtocol maxProtocol idleCheck capacity =
     (case idlePeers_loop minProtocol maxProtocol idleCheck capacity
             (range_values (peers ps) order) ([], [], 0) of
        Panic \<Rightarrow> Panic
      | Done (idle, tps, total') \<Rightarrow>
          Done (sort_p (sortf \<lparr>sort_p = idle, sort_tp = tps\<rparr>), total'))"

text \<open>The throughput callbacks: \<open>p.rates.Capacity(kind, time.Second)\<close>.\<close>

definition throughput ::
  "(Tracker \<Rightarrow> msg \<Rightarrow> Duration \<Rightarrow> int) \<Rightarrow> msg \<Rightarrow> peerConnection \<Rightarrow> int outcome" where
  "throughput Capacity kind p =
     (case rates p of None \<Rightarrow> Panic | Some t \<Rightarrow> Done (Capacity t kind Second))"

definition HeaderIdlePeers ::
  "(Tracker \<Rightarrow> msg \<Rightarrow> Duration \<Rightarrow> int) \<Rightarrow> string list \<Rightarrow> (peerCapacitySort \<Rightarrow> peerCapacitySort) \<Rightarrow>
     peerSet \<Rightarrow> (peerConnection list \<times> int) outcome" where
  "HeaderIdlePeers Capacity order sortf ps =
     idlePeers order sortf ps 63 65 (\<lambda>p. \<not> headerIdle p) (throughput Capacity BlockHeadersMsg)"

definition BodyIdlePeers ::
  "(Tracker \<Rightarrow> msg \<Rightarrow> Duration \<Rightarrow> int) \<Rightarrow> string list \<Rightarrow> (peerCapacitySort \<Rightarrow> peerCapacitySort) \<Rightarrow>
     peerSet \<Rightarrow> (peerConnection list \<times> int) outcome" where
  "BodyIdlePeers Capacity order sortf ps =
     idlePeers order sortf ps 63 65 (\<lambda>p. \<not> blockIdle p) (throughput Capacity BlockBodiesMsg)"


definition NodeDataIdlePeers ::
  "(Tracker \<Rightarrow> msg \<Rightarrow> Duration \<Rightarrow> int) \<Rightarrow> string list \<Rightarrow> (peerCapacitySort \<Rightarrow> peerCapacitySort) \<Rightarrow>
     peerSet \<Rightarrow> (peerConnection list \<times> int) outcome" where
  "NodeDataIdlePeers Capacity order sortf ps =
     idlePeers order sortf ps 63 65 (\<lambda>p. \<not> stateIdle p) (throughput Capacity NodeDataMsg)"

subsection \<open>Calls on a peer set\<close>

text \<open>
  \<open>Register\<close> and \<open>Unregister\<close> change the map and the collection of trackers
  together, so both hold the same ids.
\<close>

definition tracks_registered :: "peerSet \<Rightarrow> bool" where
  "tracks_registered ps = (dom (ps_rates ps) = dom (peers ps))"

text \<open>
  A peer set is made by \<open>newPeerSet\<close> and then changed by calls. \<open>registered\<close>
  reads the ids "registered and not since unregistered" off the calls alone, without
  running them.
\<close>

datatype call = CallRegister peerConnection | CallUnregister string | CallReset "string list"

fun calls ::
  "(Trackers \<Rightarrow> msg \<rightharpoonup> float64) \<Rightarrow> (Trackers \<Rightarrow> Duration) \<Rightarrow> call list \<Rightarrow> peerSet \<Rightarrow> peerSet" where
  "calls MeanCapacities MedianRoundTrip [] ps = ps"
| "calls MeanCapacities MedianRoundTrip (CallRegister p # cs) ps =
     calls MeanCapacities MedianRoundTrip cs (fst (snd (Register MeanCapacities MedianRoundTrip ps p)))"
| "calls MeanCapacities MedianRoundTrip (CallUnregister i # cs) ps =
     calls MeanCapacities MedianRoundTrip cs (snd (Unregister ps i))"
| "calls MeanCapacities MedianRoundTrip (CallReset order # cs) ps =
     calls MeanCapacities MedianRoundTrip cs (peerSet_Reset order ps)"

fun registered :: "call list \<Rightarrow> string set \<Rightarrow> string set" where
  "registered [] ids = ids"
| "registered (CallRegister p # cs) ids = registered cs (insert (id' p) ids)"
| "registered (CallUnregister i # cs) ids = registered cs (ids - {i})"
| "registered (CallReset order # cs) ids = registered cs ids"

subsection \<open>Example values\<close>

text \<open>A session of version 64 with a fetch of every kind outstanding.\<close>

definition busy_session :: peerConnection where
  "busy_session =
     (newPeerConnection ''A'' 64)\<lparr>headerIdle := True, blockIdle := True, receiptIdle := True,
       stateIdle := True, headerStarted := 1, blockStarted := 2, receiptStarted := 3,
       stateStarted := 4\<rparr>"

text \<open>A session of version 63 with one hash marked, and a peer set of two sessions.\<close>

definition marked_session :: peerConnection where
  "marked_session = MarkLacking (\<lambda>L. 0) 7 (newPeerConnection ''B'' 63)"

definition example_set :: peerSet where
  "example_set =
     \<lparr>peers = [''A'' \<mapsto> busy_session, ''B'' \<mapsto> marked_session],
      ps_rates = [''A'' \<mapsto> NewTracker Map.empty 0, ''B'' \<mapsto> NewTracker Map.empty 0],
      newPeerFeed = [], peerDropFeed = []\<rparr>"


text \<open>A session whose lacking set has been filled by 4096 calls of \<open>MarkLacking\<close>.\<close>

definition full_session :: peerConnection where
  "full_session =
     fold (MarkLacking (\<lambda>L. 0)) (map word_of_nat [0..<4096]) (newPeerConnection ''A'' 64)"

text \<open>
  An estimator for the examples: the items of the latest delivery of the kind, scaled to
  the target round trip. A session of id \<open>i\<close> and version \<open>v\<close>, registered, with one
  delivery of so many items within a second.
\<close>

definition example_Capacity :: "Tracker \<Rightarrow> msg \<Rightarrow> Duration \<Rightarrow> int" where
  "example_Capacity t kind rtt =
     foldl (\<lambda>acc (k, elapsed, items). if k = kind then items * rtt div elapsed else acc) 0
       (deliveries t)"

definition measured :: "string \<Rightarrow> nat \<Rightarrow> msg \<Rightarrow> int \<Rightarrow> peerConnection" where
  "measured i v kind items =
     (newPeerConnection i v)\<lparr>rates := Some (Update (NewTracker Map.empty 0) kind Second items)\<rparr>"

text \<open>Sessions of versions 61, 63 (fetching headers) and 65.\<close>

definition versions_set :: peerSet where
  "versions_set =
     \<lparr>peers = [''X'' \<mapsto> measured ''X'' 61 BlockHeadersMsg 10,
               ''Y'' \<mapsto> (measured ''Y'' 63 BlockHeadersMsg 10)\<lparr>headerIdle := True\<rparr>,
               ''Z'' \<mapsto> measured ''Z'' 65 BlockHeadersMsg 10],
      ps_rates = Map.empty, newPeerFeed = [], peerDropFeed = []\<rparr>"

text \<open>Idle sessions of capacities 10, 50 and 30, and the two swaps that order them.\<close>

definition ranked_set :: peerSet where
  "ranked_set =
     \<lparr>peers = [''A'' \<mapsto> measured ''A'' 64 BlockHeadersMsg 10,
               ''B'' \<mapsto> measured ''B'' 64 BlockHeadersMsg 50,
               ''C'' \<mapsto> measured ''C'' 64 BlockHeadersMsg 30],
      ps_rates = Map.empty, newPeerFeed = [], peerDropFeed = []\<rparr>"

definition ranked_sort :: "peerCapacitySort \<Rightarrow> peerCapacitySort" where
  "ranked_sort d = Swap (Swap d 0 1) 1 2"

text \<open>
  Thirteen idle sessions, twelve of capacity 5 and one of capacity 4, visited in the order
  of their names. \<open>tied_sort\<close> is what Go's pattern-defeating quicksort does on them: it
  moves the pivot (the seventh) to the front, finds the rest partitioned, and sorts the
  twelve that follow by insertion, which moves the last before the twelfth.
\<close>

definition tied_names :: "string list" where
  "tied_names = [''a'', ''b'', ''c'', ''d'', ''e'', ''f'', ''g'', ''h'', ''i'', ''j'', ''k'', ''l'', ''m'']"

definition tied_caps :: "int list" where
  "tied_caps = [5, 5, 5, 5, 5, 5, 5, 5, 5, 5, 5, 4, 5]"

definition tied_sessions :: "peerConnection list" where
  "tied_sessions = map2 (\<lambda>i c. measured i 64 BlockHeadersMsg c) tied_names tied_caps"

definition tied_set :: peerSet where
  "tied_set =
     \<lparr>peers = map_of (zip tied_names tied_sessions), ps_rates = Map.empty,
      newPeerFeed = [], peerDropFeed = []\<rparr>"

definition tied_sort :: "peerCapacitySort \<Rightarrow> peerCapacitySort" where
  "tied_sort d = Swap (Swap d 0 6) 11 12"

definition tied_result :: "peerConnection list" where
  "tied_result =
     map2 (\<lambda>i c. measured i 64 BlockHeadersMsg c)
       [''g'', ''b'', ''c'', ''d'', ''e'', ''f'', ''a'', ''h'', ''i'', ''j'', ''k'', ''m'', ''l'']
       [5, 5, 5, 5, 5, 5, 5, 5, 5, 5, 5, 5, 4]"




text \<open>The aggregate statistics of the examples.\<close>

definition no_capacities :: "Trackers \<Rightarrow> msg \<rightharpoonup> float64" where
  "no_capacities ts = Map.empty"

definition no_roundtrip :: "Trackers \<Rightarrow> Duration" where
  "no_roundtrip ts = 0"

section \<open>Properties\<close>

subsection \<open>Sessions\<close>

text \<open>A flag is only ever set by a fetch, and a fetch checks the version first.\<close>

lemma session_busy_version:
  "session p \<Longrightarrow>
     (headerIdle p \<longrightarrow> 62 \<le> version p) \<and> (blockIdle p \<longrightarrow> 62 \<le> version p) \<and>
     (receiptIdle p \<longrightarrow> 63 \<le> version p) \<and> (stateIdle p \<longrightarrow> 63 \<le> version p)"
proof (induction rule: session.induct)
  case (session_new i v)
  show ?case by (simp add: newPeerConnection_def)
next
  case (session_Reset p)
  show ?case by (simp add: Reset_def)
next
  case (session_FetchHeaders p now from' count' e q rs)
  then show ?case by (auto simp: FetchHeaders_def split: if_splits)
next
  case (session_FetchBodies p hashOf now req e q rs)
  then show ?case by (auto simp: FetchBodies_def split: if_splits)
next
  case (session_FetchReceipts p hashOf now req e q rs)
  then show ?case by (auto simp: FetchReceipts_def split: if_splits)
next
  case (session_FetchNodeData p now hashes e q rs)
  then show ?case by (auto simp: FetchNodeData_def split: if_splits)
next
  case (session_SetHeadersIdle p delivered deliveryTime q)
  then show ?case by (auto simp: SetHeadersIdle_def split: option.splits)
next
  case (session_SetBodiesIdle p delivered deliveryTime q)
  then show ?case by (auto simp: SetBodiesIdle_def split: option.splits)
next
  case (session_SetReceiptsIdle p delivered deliveryTime q)
  then show ?case by (auto simp: SetReceiptsIdle_def split: option.splits)
next
  case (session_SetNodeDataIdle p delivered deliveryTime q)
  then show ?case by (auto simp: SetNodeDataIdle_def split: option.splits)
next
  case (session_MarkLacking p pick hash)
  then show ?case by (simp add: MarkLacking_def)
next
  case (session_rates p t)
  then show ?case by simp
qed

lemma session_busy_session: "session busy_session"
proof -
  let ?a = "newPeerConnection ''A'' 64"
  let ?b = "?a\<lparr>headerIdle := True, headerStarted := 1\<rparr>"
  let ?c = "?b\<lparr>blockIdle := True, blockStarted := 2\<rparr>"
  let ?d = "?c\<lparr>receiptIdle := True, receiptStarted := 3\<rparr>"
  let ?e = "?d\<lparr>stateIdle := True, stateStarted := 4\<rparr>"
  have a: "session ?a"
    by (rule session_new)
  have "FetchHeaders 1 ?a 0 100 = Done (None, ?b, [RequestHeadersByNumber 0 100 0 False])"
    by (simp add: FetchHeaders_def newPeerConnection_def)
  with a have b: "session ?b"
    by (rule session_FetchHeaders)
  have "FetchBodies (\<lambda>h. 0) 2 ?b \<lparr>Headers = []\<rparr> = Done (None, ?c, [RequestBodies []])"
    by (simp add: FetchBodies_def newPeerConnection_def)
  with b have c: "session ?c"
    by (rule session_FetchBodies)
  have "FetchReceipts (\<lambda>h. 0) 3 ?c \<lparr>Headers = []\<rparr> = Done (None, ?d, [RequestReceipts []])"
    by (simp add: FetchReceipts_def newPeerConnection_def)
  with c have d: "session ?d"
    by (rule session_FetchReceipts)
  have "FetchNodeData 4 ?d [] = Done (None, ?e, [RequestNodeData []])"
    by (simp add: FetchNodeData_def newPeerConnection_def)
  with d have "session ?e"
    by (rule session_FetchNodeData)
  moreover have "?e = busy_session"
    by (simp add: busy_session_def newPeerConnection_def)
  ultimately show ?thesis
    by simp
qed

text \<open>
  C1. On every session, a fetch of a kind whose flag is busy returns the already-fetching
  error, leaves the session as it was (timestamps, tracker, the other flags and the lacking
  set included) and hands no request to the remote peer.
\<close>

theorem Fetch_while_busy:
  assumes "session p"
  shows "(headerIdle p \<longrightarrow>
            FetchHeaders now p from' count' = Done (Some errAlreadyFetching, p, [])) \<and>
         (blockIdle p \<longrightarrow>
            FetchBodies hashOf now p req = Done (Some errAlreadyFetching, p, [])) \<and>
         (receiptIdle p \<longrightarrow>
            FetchReceipts hashOf now p req = Done (Some errAlreadyFetching, p, [])) \<and>
         (stateIdle p \<longrightarrow>
            FetchNodeData now p hashes = Done (Some errAlreadyFetching, p, []))"
  using session_busy_version [OF assms]
  by (auto simp: FetchHeaders_def FetchBodies_def FetchReceipts_def FetchNodeData_def)

theorem Fetch_while_busy_witness:
  "session busy_session \<and>
   headerIdle busy_session \<and>
   FetchHeaders 9 busy_session 0 100 = Done (Some errAlreadyFetching, busy_session, []) \<and>
   blockIdle busy_session \<and>
   FetchBodies (\<lambda>h. 0) 9 busy_session \<lparr>Headers = []\<rparr> =
     Done (Some errAlreadyFetching, busy_session, []) \<and>
   receiptIdle busy_session \<and>
   FetchReceipts (\<lambda>h. 0) 9 busy_session \<lparr>Headers = []\<rparr> =
     Done (Some errAlreadyFetching, busy_session, []) \<and>
   stateIdle busy_session \<and>
   FetchNodeData 9 busy_session [] = Done (Some errAlreadyFetching, busy_session, [])"
proof -
  have flags: "headerIdle busy_session \<and> blockIdle busy_session \<and>
               receiptIdle busy_session \<and> stateIdle busy_session"
    by (simp add: busy_session_def)
  with session_busy_session
    Fetch_while_busy [OF session_busy_session, of 9 0 100 "\<lambda>h. 0" "\<lparr>Headers = []\<rparr>" "[]"]
  show ?thesis
    by simp
qed

text \<open>
  C9. A fetch panics exactly when the session's version is below its kind's minimum (62
  for headers and bodies, 63 for receipts and node data); at or above the minimum it
  returns, with no error or with the already-fetching error.
\<close>

theorem Fetch_panics_below_minimum:
  "(FetchHeaders now p from' count' = Panic) = (version p < 62) \<and>
   (FetchBodies hashOf now p req = Panic) = (version p < 62) \<and>
   (FetchReceipts hashOf now p req = Panic) = (version p < 63) \<and>
   (FetchNodeData now p hashes = Panic) = (version p < 63) \<and>
   (62 \<le> version p \<longrightarrow>
      returned_error (FetchHeaders now p from' count') \<in> {None, Some errAlreadyFetching} \<and>
      returned_error (FetchBodies hashOf now p req) \<in> {None, Some errAlreadyFetching}) \<and>
   (63 \<le> version p \<longrightarrow>
      returned_error (FetchReceipts hashOf now p req) \<in> {None, Some errAlreadyFetching} \<and>
      returned_error (FetchNodeData now p hashes) \<in> {None, Some errAlreadyFetching})"
  by (simp add: FetchHeaders_def FetchBodies_def FetchReceipts_def FetchNodeData_def)

theorem Fetch_panics_below_minimum_witness:
  "62 \<le> version (newPeerConnection ''A'' 62) \<and>
   FetchHeaders 9 (newPeerConnection ''A'' 62) 0 100 \<noteq> Panic \<and>
   returned_error (FetchHeaders 9 (newPeerConnection ''A'' 62) 0 100) \<in> {None, Some errAlreadyFetching} \<and>
   returned_error (FetchBodies (\<lambda>h. 0) 9 (newPeerConnection ''A'' 62) \<lparr>Headers = []\<rparr>)
     \<in> {None, Some errAlreadyFetching} \<and>
   FetchReceipts (\<lambda>h. 0) 9 (newPeerConnection ''A'' 62) \<lparr>Headers = []\<rparr> = Panic \<and>
   63 \<le> version (newPeerConnection ''B'' 63) \<and>
   returned_error (FetchReceipts (\<lambda>h. 0) 9 (newPeerConnection ''B'' 63) \<lparr>Headers = []\<rparr>)
     \<in> {None, Some errAlreadyFetching} \<and>
   returned_error (FetchNodeData 9 (newPeerConnection ''B'' 63) []) \<in> {None, Some errAlreadyFetching}"
proof -
  have a: "version (newPeerConnection ''A'' 62) = 62" and b: "version (newPeerConnection ''B'' 63) = 63"
    by (simp_all add: newPeerConnection_def)
  show ?thesis
    using Fetch_panics_below_minimum [of 9 "newPeerConnection ''A'' 62" 0 100 "\<lambda>h. 0" "\<lparr>Headers = []\<rparr>" "[]"]
      Fetch_panics_below_minimum [of 9 "newPeerConnection ''B'' 63" 0 100 "\<lambda>h. 0" "\<lparr>Headers = []\<rparr>" "[]"]
    by (simp add: a b)
qed

lemma Reset_Reset: "Reset (Reset p) = Reset p"
  by (simp add: Reset_def)

lemma fold_Reset:
  "fold (\<lambda>k m. case m k of None \<Rightarrow> m | Some p \<Rightarrow> m(k \<mapsto> Reset p)) order m k =
     (if k \<in> set order then map_option Reset (m k) else m k)"
proof (induction order arbitrary: m)
  case Nil
  show ?case by simp
next
  case (Cons a order)
  let ?F = "\<lambda>k m. case m k of None \<Rightarrow> m | Some p \<Rightarrow> m(k \<mapsto> Reset p)"
  show ?case
  proof (cases "m a")
    case None
    have "fold ?F (a # order) m k = fold ?F order m k"
      by (simp add: None)
    also have "\<dots> = (if k \<in> set order then map_option Reset (m k) else m k)"
      by (rule Cons.IH)
    also have "\<dots> = (if k \<in> set (a # order) then map_option Reset (m k) else m k)"
      using None by auto
    finally show ?thesis .
  next
    case (Some p)
    let ?m = "m(a \<mapsto> Reset p)"
    have "fold ?F (a # order) m k = fold ?F order ?m k"
      by (simp add: Some)
    also have "\<dots> = (if k \<in> set order then map_option Reset (?m k) else ?m k)"
      by (rule Cons.IH)
    also have "\<dots> = (if k \<in> set (a # order) then map_option Reset (m k) else m k)"
      using Some by (auto simp: Reset_Reset)
    finally show ?thesis .
  qed
qed

lemma peerSet_Reset_peers:
  assumes "ranges (peers ps) order"
  shows "peers (peerSet_Reset order ps) k = map_option Reset (peers ps k)"
proof -
  have "peers (peerSet_Reset order ps) k =
          (if k \<in> set order then map_option Reset (peers ps k) else peers ps k)"
    by (simp add: peerSet_Reset_def fold_Reset)
  moreover have "k \<notin> set order \<Longrightarrow> peers ps k = None"
    using assms by (auto simp: ranges_def)
  ultimately show ?thesis
    by auto
qed

lemma dropWhileFull_below: "fcard L < maxLackingHashes \<Longrightarrow> dropWhileFull pick L = L"
  by (subst dropWhileFull.simps) simp

lemma lacking_marked_session: "lacking marked_session = {|7|}"
  by (simp add: marked_session_def MarkLacking_def newPeerConnection_def dropWhileFull_below
      maxLackingHashes_def fcard_fempty)

text \<open>
  C7. After \<open>Reset\<close>, whatever the session was before, the four flags read idle, no
  fetch returns the already-fetching error, and the lacking set is empty, so that
  \<open>Lacks\<close> is false of every hash, one just marked included. The peer set's
  \<open>Reset\<close> does this to every registered session and touches nothing else.
\<close>

theorem Reset_clears:
  "\<not> headerIdle (Reset p) \<and> \<not> blockIdle (Reset p) \<and> \<not> receiptIdle (Reset p) \<and>
   \<not> stateIdle (Reset p) \<and>
   returned_error (FetchHeaders now (Reset p) from' count') \<noteq> Some errAlreadyFetching \<and>
   returned_error (FetchBodies hashOf now (Reset p) req) \<noteq> Some errAlreadyFetching \<and>
   returned_error (FetchReceipts hashOf now (Reset p) req) \<noteq> Some errAlreadyFetching \<and>
   returned_error (FetchNodeData now (Reset p) hashes) \<noteq> Some errAlreadyFetching \<and>
   lacking (Reset p) = {||} \<and> \<not> Lacks (Reset p) h \<and>
   \<not> Lacks (Reset (MarkLacking pick h p)) h \<and>
   (ranges (peers ps) order \<longrightarrow>
      peers (peerSet_Reset order ps) = (\<lambda>k. map_option Reset (peers ps k)) \<and>
      ps_rates (peerSet_Reset order ps) = ps_rates ps \<and>
      newPeerFeed (peerSet_Reset order ps) = newPeerFeed ps \<and>
      peerDropFeed (peerSet_Reset order ps) = peerDropFeed ps)"
proof -
  have session_part:
    "\<not> headerIdle (Reset p) \<and> \<not> blockIdle (Reset p) \<and> \<not> receiptIdle (Reset p) \<and>
     \<not> stateIdle (Reset p) \<and> lacking (Reset p) = {||} \<and> \<not> Lacks (Reset p) h \<and>
     \<not> Lacks (Reset (MarkLacking pick h p)) h"
    by (simp add: Reset_def Lacks_def)
  have fetch_part:
    "returned_error (FetchHeaders now (Reset p) from' count') \<noteq> Some errAlreadyFetching \<and>
     returned_error (FetchBodies hashOf now (Reset p) req) \<noteq> Some errAlreadyFetching \<and>
     returned_error (FetchReceipts hashOf now (Reset p) req) \<noteq> Some errAlreadyFetching \<and>
     returned_error (FetchNodeData now (Reset p) hashes) \<noteq> Some errAlreadyFetching"
    by (simp add: Reset_def FetchHeaders_def FetchBodies_def FetchReceipts_def FetchNodeData_def)
  have set_part:
    "ranges (peers ps) order \<Longrightarrow>
       peers (peerSet_Reset order ps) = (\<lambda>k. map_option Reset (peers ps k))"
    by (rule ext) (rule peerSet_Reset_peers)
  have frame:
    "ps_rates (peerSet_Reset order ps) = ps_rates ps \<and>
     newPeerFeed (peerSet_Reset order ps) = newPeerFeed ps \<and>
     peerDropFeed (peerSet_Reset order ps) = peerDropFeed ps"
    by (simp add: peerSet_Reset_def)
  from session_part fetch_part set_part frame show ?thesis
    by blast
qed

theorem Reset_clears_witness:
  "ranges (peers example_set) [''B'', ''A''] \<and>
   peers (peerSet_Reset [''B'', ''A''] example_set) ''A'' = Some (Reset busy_session) \<and>
   peers (peerSet_Reset [''B'', ''A''] example_set) ''B'' = Some (Reset marked_session) \<and>
   headerIdle busy_session \<and> \<not> headerIdle (Reset busy_session) \<and>
   Lacks marked_session 7 \<and> \<not> Lacks (Reset marked_session) 7"
proof -
  have r: "ranges (peers example_set) [''B'', ''A'']"
    by (auto simp: ranges_def example_set_def)
  have p: "peers example_set ''A'' = Some busy_session \<and>
           peers example_set ''B'' = Some marked_session"
    by (simp add: example_set_def)
  have b: "headerIdle busy_session \<and> Lacks marked_session 7"
    by (simp add: busy_session_def Lacks_def lacking_marked_session)
  show ?thesis
    using r p b
      Reset_clears [of busy_session 0 0 0 "\<lambda>h. 0" "\<lparr>Headers = []\<rparr>" "[]" 7 "\<lambda>L. 0"
        example_set "[''B'', ''A'']"]
      Reset_clears [of marked_session 0 0 0 "\<lambda>h. 0" "\<lparr>Headers = []\<rparr>" "[]" 7 "\<lambda>L. 0"
        example_set "[''B'', ''A'']"]
    by simp
qed




lemma dropWhileFull_less: "fcard (dropWhileFull pick L) < maxLackingHashes"
proof (induction pick L rule: dropWhileFull.induct)
  case (1 pick L)
  show ?case
  proof (cases "maxLackingHashes \<le> fcard L")
    case True
    then have "dropWhileFull pick L = dropWhileFull pick (L |-| {|range_first pick L|})"
      by (subst dropWhileFull.simps) simp
    with "1.IH" [OF True] show ?thesis
      by simp
  next
    case False
    then have "dropWhileFull pick L = L"
      by (subst dropWhileFull.simps) simp
    with False show ?thesis
      by simp
  qed
qed

lemma length_sorted_list_of_fset: "length (sorted_list_of_fset L) = fcard L"
  by (simp add: sorted_list_of_fset.rep_eq fcard.rep_eq)

lemma range_first_in: "L \<noteq> {||} \<Longrightarrow> range_first pick L |\<in>| L"
proof -
  assume "L \<noteq> {||}"
  then have "0 < fcard L"
    by (metis fcard_0_eq gr0I)
  then have "pick L mod fcard L < fcard L"
    by (rule mod_less_divisor)
  then have "pick L mod fcard L < length (sorted_list_of_fset L)"
    by (simp only: length_sorted_list_of_fset)
  then have "sorted_list_of_fset L ! (pick L mod fcard L) \<in> set (sorted_list_of_fset L)"
    by (rule nth_mem)
  then show ?thesis
    by (simp add: range_first_def)
qed

lemma dropWhileFull_full:
  assumes "fcard L = maxLackingHashes"
  shows "dropWhileFull pick L = L |-| {|range_first pick L|}"
proof -
  have ne: "L \<noteq> {||}"
    using assms by (auto simp: maxLackingHashes_def fcard_fempty)
  then have "range_first pick L |\<in>| L"
    by (rule range_first_in)
  then have "fcard (L |-| {|range_first pick L|}) < fcard L"
    by (rule fcard_fminus1_less)
  then have below: "fcard (L |-| {|range_first pick L|}) < maxLackingHashes"
    using assms by (simp del: fcard_fminus_finsert)
  have "dropWhileFull pick L = dropWhileFull pick (L |-| {|range_first pick L|})"
    using assms by (subst dropWhileFull.simps) simp
  also have "\<dots> = L |-| {|range_first pick L|}"
    using below by (rule dropWhileFull_below)
  finally show ?thesis .
qed

lemma MarkLacking_le: "fcard (lacking (MarkLacking pick h p)) \<le> maxLackingHashes"
proof -
  have "fcard (finsert h (dropWhileFull pick (lacking p))) \<le> Suc (fcard (dropWhileFull pick (lacking p)))"
    by (simp add: fcard_finsert_if)
  also have "\<dots> \<le> maxLackingHashes"
    using dropWhileFull_less [of pick "lacking p"] by simp
  finally show ?thesis
    by (simp add: MarkLacking_def)
qed

lemma session_lacking_le: "session p \<Longrightarrow> fcard (lacking p) \<le> maxLackingHashes"
proof (induction rule: session.induct)
  case (session_new i v)
  show ?case by (simp add: newPeerConnection_def fcard_fempty)
next
  case (session_Reset p)
  show ?case by (simp add: Reset_def fcard_fempty)
next
  case (session_FetchHeaders p now from' count' e q rs)
  then show ?case by (auto simp: FetchHeaders_def split: if_splits)
next
  case (session_FetchBodies p hashOf now req e q rs)
  then show ?case by (auto simp: FetchBodies_def split: if_splits)
next
  case (session_FetchReceipts p hashOf now req e q rs)
  then show ?case by (auto simp: FetchReceipts_def split: if_splits)
next
  case (session_FetchNodeData p now hashes e q rs)
  then show ?case by (auto simp: FetchNodeData_def split: if_splits)
next
  case (session_SetHeadersIdle p delivered deliveryTime q)
  then show ?case by (auto simp: SetHeadersIdle_def split: option.splits)
next
  case (session_SetBodiesIdle p delivered deliveryTime q)
  then show ?case by (auto simp: SetBodiesIdle_def split: option.splits)
next
  case (session_SetReceiptsIdle p delivered deliveryTime q)
  then show ?case by (auto simp: SetReceiptsIdle_def split: option.splits)
next
  case (session_SetNodeDataIdle p delivered deliveryTime q)
  then show ?case by (auto simp: SetNodeDataIdle_def split: option.splits)
next
  case (session_MarkLacking p pick hash)
  show ?case by (rule MarkLacking_le)
next
  case (session_rates p t)
  then show ?case by simp
qed

lemma session_fold_MarkLacking: "session p \<Longrightarrow> session (fold (MarkLacking pick) hs p)"
  by (induction hs arbitrary: p) (simp_all add: session_MarkLacking)

lemma lacking_fold_MarkLacking:
  "fcard (lacking p) + length hs \<le> maxLackingHashes \<Longrightarrow>
     lacking (fold (MarkLacking pick) hs p) = lacking p |\<union>| fset_of_list hs"
proof (induction hs arbitrary: p)
  case Nil
  show ?case by simp
next
  case (Cons h hs)
  from Cons.prems have below: "fcard (lacking p) < maxLackingHashes"
    by simp
  then have l: "lacking (MarkLacking pick h p) = finsert h (lacking p)"
    by (simp add: MarkLacking_def dropWhileFull_below)
  have "fcard (finsert h (lacking p)) \<le> Suc (fcard (lacking p))"
    by (simp add: fcard_finsert_if)
  with Cons.prems l have "fcard (lacking (MarkLacking pick h p)) + length hs \<le> maxLackingHashes"
    by simp
  then have "lacking (fold (MarkLacking pick) hs (MarkLacking pick h p)) =
               lacking (MarkLacking pick h p) |\<union>| fset_of_list hs"
    by (rule Cons.IH)
  with l show ?case
    by simp
qed

lemma unat_small: "n < 5000 \<Longrightarrow> unat (word_of_nat n :: Hash) = n"
  by (simp add: unat_of_nat)

lemma inj_small: "inj_on (word_of_nat :: nat \<Rightarrow> Hash) {0..<4096}"
proof (rule inj_on_inverseI)
  fix n :: nat
  assume "n \<in> {0..<4096}"
  then show "unat (word_of_nat n :: Hash) = n"
    by (simp add: unat_small)
qed

lemma lacking_full_session:
  "lacking full_session = fset_of_list (map word_of_nat [0..<4096])"
proof -
  have "fcard (lacking (newPeerConnection ''A'' 64)) + length (map word_of_nat [0..<4096] :: Hash list)
          \<le> maxLackingHashes"
    by (simp add: newPeerConnection_def fcard_fempty maxLackingHashes_def)
  then have "lacking full_session =
               lacking (newPeerConnection ''A'' 64) |\<union>| fset_of_list (map word_of_nat [0..<4096])"
    unfolding full_session_def by (rule lacking_fold_MarkLacking)
  then show ?thesis
    by (simp add: newPeerConnection_def)
qed

lemma fcard_full_session: "fcard (lacking full_session) = maxLackingHashes"
proof -
  have "fcard (lacking full_session) = card ((word_of_nat :: nat \<Rightarrow> Hash) ` {0..<4096})"
    by (simp add: lacking_full_session fcard.rep_eq fset_of_list.rep_eq)
  also have "\<dots> = card {0..<4096::nat}"
    by (rule card_image) (rule inj_small)
  finally show ?thesis
    by (simp add: maxLackingHashes_def)
qed

lemma new_full_session: "4096 |\<notin>| lacking full_session"
proof
  assume "4096 |\<in>| lacking full_session"
  then have "(4096 :: Hash) \<in> word_of_nat ` {0..<4096}"
    by (simp add: lacking_full_session fset_of_list.rep_eq)
  then obtain n :: nat where n: "n < 4096" and eq: "(4096 :: Hash) = word_of_nat n"
    by auto
  from eq have "unat (4096 :: Hash) = unat (word_of_nat n :: Hash)"
    by simp
  with n show False
    by (simp add: unat_small)
qed

text \<open>
  C5. The lacking set of a session never holds more than 4096 entries, and the hash just
  marked is in it. Marking a new hash on a set of exactly 4096 entries leaves 4096: the
  new hash and all the entries but one.
\<close>

theorem MarkLacking_bounded:
  assumes "session p"
  shows "maxLackingHashes = 4096 \<and>
         fcard (lacking p) \<le> maxLackingHashes \<and>
         fcard (lacking (MarkLacking pick h p)) \<le> maxLackingHashes \<and>
         Lacks (MarkLacking pick h p) h \<and>
         (fcard (lacking p) = maxLackingHashes \<and> h |\<notin>| lacking p \<longrightarrow>
            fcard (lacking (MarkLacking pick h p)) = maxLackingHashes \<and>
            (\<exists>d. d |\<in>| lacking p \<and> d \<noteq> h \<and> \<not> Lacks (MarkLacking pick h p) d \<and>
                 lacking (MarkLacking pick h p) = finsert h (lacking p |-| {|d|})))"
proof -
  have full: "fcard (lacking (MarkLacking pick h p)) = maxLackingHashes \<and>
            (\<exists>d. d |\<in>| lacking p \<and> d \<noteq> h \<and> \<not> Lacks (MarkLacking pick h p) d \<and>
                 lacking (MarkLacking pick h p) = finsert h (lacking p |-| {|d|}))"
    if eq: "fcard (lacking p) = maxLackingHashes" and new: "h |\<notin>| lacking p"
  proof -
    let ?d = "range_first pick (lacking p)"
    have ne: "lacking p \<noteq> {||}"
      using eq by (auto simp: maxLackingHashes_def fcard_fempty)
    then have d_in: "?d |\<in>| lacking p"
      by (rule range_first_in)
    with new have d_h: "?d \<noteq> h"
      by auto
    have l: "lacking (MarkLacking pick h p) = finsert h (lacking p |-| {|?d|})"
      by (simp add: MarkLacking_def dropWhileFull_full [OF eq])
    have "fcard (lacking p |-| {|?d|}) = maxLackingHashes - 1"
      using d_in eq by (simp add: fcard_fminus_fsingleton)
    moreover have "h |\<notin>| lacking p |-| {|?d|}"
      using new by simp
    ultimately have "fcard (finsert h (lacking p |-| {|?d|})) = maxLackingHashes"
      by (simp add: fcard_finsert_disjoint maxLackingHashes_def del: fcard_fminus_finsert)
    with l d_in d_h show ?thesis
      by (auto simp: Lacks_def)
  qed
  have "Lacks (MarkLacking pick h p) h"
    by (simp add: Lacks_def MarkLacking_def)
  with full session_lacking_le [OF assms] MarkLacking_le [of pick h p] show ?thesis
    by (simp add: maxLackingHashes_def)
qed

theorem MarkLacking_bounded_witness:
  "session full_session \<and> fcard (lacking full_session) = maxLackingHashes \<and>
   4096 |\<notin>| lacking full_session \<and>
   fcard (lacking (MarkLacking (\<lambda>L. 0) 4096 full_session)) = maxLackingHashes \<and>
   Lacks (MarkLacking (\<lambda>L. 0) 4096 full_session) 4096 \<and>
   (\<exists>d. d |\<in>| lacking full_session \<and> \<not> Lacks (MarkLacking (\<lambda>L. 0) 4096 full_session) d)"
proof -
  have s: "session full_session"
    unfolding full_session_def by (rule session_fold_MarkLacking) (rule session_new)
  from MarkLacking_bounded [OF s, of "\<lambda>L. 0" 4096] fcard_full_session new_full_session s
  show ?thesis
    by blast
qed

subsection \<open>The peer set\<close>

lemma tracks_registered_new: "tracks_registered newPeerSet"
  by (simp add: tracks_registered_def newPeerSet_def)

lemma Register_tracks:
  "tracks_registered ps \<Longrightarrow> tracks_registered (fst (snd (Register mc mr ps p)))"
  by (auto simp: tracks_registered_def Register_def Track_def Let_def)

lemma Unregister_tracks:
  "tracks_registered ps \<Longrightarrow> tracks_registered (snd (Unregister ps i))"
  by (auto simp: tracks_registered_def Unregister_def Untrack_def split: option.splits)

lemma dom_fold_Reset:
  "dom (fold (\<lambda>k m. case m k of None \<Rightarrow> m | Some p \<Rightarrow> m(k \<mapsto> Reset p)) order m) = dom m"
proof (induction order arbitrary: m)
  case Nil
  show ?case by simp
next
  case (Cons a order)
  show ?case
  proof (cases "m a")
    case None
    then show ?thesis
      by (simp add: Cons.IH)
  next
    case (Some p)
    then have "a \<in> dom m"
      by (rule domI)
    then have "insert a (dom m) = dom m"
      by (rule insert_absorb)
    then have "dom (m(a \<mapsto> Reset p)) = dom m"
      by (simp only: dom_fun_upd option.distinct if_False)
    have "dom (fold (\<lambda>k m. case m k of None \<Rightarrow> m | Some p \<Rightarrow> m(k \<mapsto> Reset p)) (a # order) m) =
            dom (fold (\<lambda>k m. case m k of None \<Rightarrow> m | Some p \<Rightarrow> m(k \<mapsto> Reset p)) order
                   (m(a \<mapsto> Reset p)))"
      by (simp add: Some)
    also have "\<dots> = dom (m(a \<mapsto> Reset p))"
      by (rule Cons.IH)
    also have "\<dots> = dom m"
      by fact
    finally show ?thesis .
  qed
qed

lemma peerSet_Reset_dom: "dom (peers (peerSet_Reset order ps)) = dom (peers ps)"
  by (simp add: peerSet_Reset_def dom_fold_Reset)

lemma peerSet_Reset_tracks:
  "tracks_registered ps \<Longrightarrow> tracks_registered (peerSet_Reset order ps)"
  by (simp add: tracks_registered_def peerSet_Reset_dom) (simp add: peerSet_Reset_def)

lemma Register_dom:
  "tracks_registered ps \<Longrightarrow>
     dom (peers (fst (snd (Register mc mr ps p)))) = insert (id' p) (dom (peers ps))"
  by (auto simp: tracks_registered_def Register_def Track_def Let_def)

lemma Unregister_dom: "dom (peers (snd (Unregister ps i))) = dom (peers ps) - {i}"
  by (auto simp: Unregister_def split: option.splits)

lemma calls_registered:
  "tracks_registered ps \<Longrightarrow>
     dom (peers (calls mc mr cs ps)) = registered cs (dom (peers ps)) \<and>
     tracks_registered (calls mc mr cs ps)"
proof (induction cs arbitrary: ps)
  case Nil
  then show ?case by simp
next
  case (Cons c cs)
  show ?case
  proof (cases c)
    case (CallRegister p)
    with Cons.IH [OF Register_tracks [OF Cons.prems, of mc mr p]] Register_dom [OF Cons.prems, of mc mr p]
    show ?thesis by simp
  next
    case (CallUnregister i)
    with Cons.IH [OF Unregister_tracks [OF Cons.prems, of i]] Unregister_dom [of ps i]
    show ?thesis by simp
  next
    case (CallReset order)
    with Cons.IH [OF peerSet_Reset_tracks [OF Cons.prems, of order]] peerSet_Reset_dom [of order ps]
    show ?thesis by simp
  qed
qed

text \<open>
  C6. On a peer set whose trackers are those of its sessions, \<open>Register\<close> fails exactly
  when the session's id is already registered, with the already-registered error and with
  the set and the session as they were; \<open>Unregister\<close> fails exactly when the id is
  absent, with the not-registered error and the set as it was. A successful \<open>Register\<close>
  gives the session a tracker and inserts both under the id; a successful
  \<open>Unregister\<close> removes both.
\<close>

theorem Register_Unregister:
  assumes "tracks_registered ps"
  shows
    "(fst (Register mc mr ps p) \<noteq> None) = (id' p \<in> dom (peers ps)) \<and>
     (id' p \<in> dom (peers ps) \<longrightarrow>
        Register mc mr ps p = (Some errAlreadyRegistered, ps, p)) \<and>
     (id' p \<notin> dom (peers ps) \<longrightarrow>
        (\<exists>t ps' q. Register mc mr ps p = (None, ps', q) \<and>
           q = p\<lparr>rates := Some t\<rparr> \<and>
           peers ps' = (peers ps)(id' p \<mapsto> q) \<and>
           ps_rates ps' = (ps_rates ps)(id' p \<mapsto> t) \<and>
           newPeerFeed ps' = newPeerFeed ps @ [q] \<and>
           peerDropFeed ps' = peerDropFeed ps \<and>
           tracks_registered ps')) \<and>
     (fst (Unregister ps i) \<noteq> None) = (i \<notin> dom (peers ps)) \<and>
     (i \<notin> dom (peers ps) \<longrightarrow> Unregister ps i = (Some errNotRegistered, ps)) \<and>
     (i \<in> dom (peers ps) \<longrightarrow>
        (\<exists>ps' q. Unregister ps i = (None, ps') \<and>
           peers ps i = Some q \<and>
           peers ps' = (peers ps)(i := None) \<and>
           ps_rates ps' = (ps_rates ps)(i := None) \<and>
           newPeerFeed ps' = newPeerFeed ps \<and>
           peerDropFeed ps' = peerDropFeed ps @ [q] \<and>
           tracks_registered ps'))"
proof -
  have untracked: "id' p \<notin> dom (peers ps) \<Longrightarrow> id' p \<notin> dom (ps_rates ps)"
    using assms by (simp add: tracks_registered_def)
  have reg_fail: "(fst (Register mc mr ps p) \<noteq> None) = (id' p \<in> dom (peers ps))"
    using untracked by (auto simp: Register_def Track_def Let_def)
  have reg_dup: "id' p \<in> dom (peers ps) \<longrightarrow>
        Register mc mr ps p = (Some errAlreadyRegistered, ps, p)"
    by (simp add: Register_def)
  have reg_ok: "id' p \<notin> dom (peers ps) \<longrightarrow>
        (\<exists>t ps' q. Register mc mr ps p = (None, ps', q) \<and>
           q = p\<lparr>rates := Some t\<rparr> \<and>
           peers ps' = (peers ps)(id' p \<mapsto> q) \<and>
           ps_rates ps' = (ps_rates ps)(id' p \<mapsto> t) \<and>
           newPeerFeed ps' = newPeerFeed ps @ [q] \<and>
           peerDropFeed ps' = peerDropFeed ps \<and>
           tracks_registered ps')"
    using untracked assms
    by (auto simp: Register_def Track_def Let_def tracks_registered_def)
  have unreg_fail: "(fst (Unregister ps i) \<noteq> None) = (i \<notin> dom (peers ps))"
    by (auto simp: Unregister_def split: option.splits)
  have unreg_absent: "i \<notin> dom (peers ps) \<longrightarrow> Unregister ps i = (Some errNotRegistered, ps)"
    by (auto simp: Unregister_def split: option.splits)
  have unreg_ok: "i \<in> dom (peers ps) \<longrightarrow>
        (\<exists>ps' q. Unregister ps i = (None, ps') \<and>
           peers ps i = Some q \<and>
           peers ps' = (peers ps)(i := None) \<and>
           ps_rates ps' = (ps_rates ps)(i := None) \<and>
           newPeerFeed ps' = newPeerFeed ps \<and>
           peerDropFeed ps' = peerDropFeed ps @ [q] \<and>
           tracks_registered ps')"
    using assms
    by (auto simp: Unregister_def Untrack_def tracks_registered_def split: option.splits)
  from reg_fail reg_dup reg_ok unreg_fail unreg_absent unreg_ok show ?thesis
    by (intro conjI)
qed

theorem Register_Unregister_witness:
  "tracks_registered example_set \<and>
   id' busy_session \<in> dom (peers example_set) \<and>
   Register no_capacities no_roundtrip example_set busy_session =
     (Some errAlreadyRegistered, example_set, busy_session) \<and>
   id' (newPeerConnection ''C'' 64) \<notin> dom (peers example_set) \<and>
   fst (Register no_capacities no_roundtrip example_set (newPeerConnection ''C'' 64)) = None \<and>
   ''Z'' \<notin> dom (peers example_set) \<and>
   Unregister example_set ''Z'' = (Some errNotRegistered, example_set) \<and>
   ''A'' \<in> dom (peers example_set) \<and>
   fst (Unregister example_set ''A'') = None"
proof -
  have t: "tracks_registered example_set"
    by (auto simp: tracks_registered_def example_set_def)
  have d: "id' busy_session \<in> dom (peers example_set) \<and>
           id' (newPeerConnection ''C'' 64) \<notin> dom (peers example_set) \<and>
           ''Z'' \<notin> dom (peers example_set) \<and> ''A'' \<in> dom (peers example_set)"
    by (simp add: example_set_def busy_session_def newPeerConnection_def)
  from t d
    Register_Unregister [OF t, of no_capacities no_roundtrip busy_session "''Z''"]
    Register_Unregister [OF t, of no_capacities no_roundtrip "newPeerConnection ''C'' 64" "''A''"]
  show ?thesis
    by simp
qed

text \<open>
  C10. \<open>Peer\<close> returns no session exactly for the ids that are not registered. On a
  peer set made by calls it returns a session exactly for the ids registered and not since
  unregistered. It is a read: the model has no set to return.
\<close>

theorem Peer_lookup:
  "(Peer ps i = None) = (i \<notin> dom (peers ps)) \<and>
   (Peer (calls mc mr cs newPeerSet) i \<noteq> None) = (i \<in> registered cs {})"
proof -
  have "dom (peers (calls mc mr cs newPeerSet)) = registered cs (dom (peers newPeerSet))"
    using calls_registered [OF tracks_registered_new] by simp
  then have "dom (peers (calls mc mr cs newPeerSet)) = registered cs {}"
    by (simp add: newPeerSet_def)
  then show ?thesis
    by (auto simp: Peer_def)
qed

theorem Peer_lookup_witness:
  "Peer (calls no_capacities no_roundtrip
           [CallRegister (newPeerConnection ''A'' 64), CallRegister (newPeerConnection ''B'' 63),
            CallUnregister ''A''] newPeerSet) ''A'' = None \<and>
   Peer (calls no_capacities no_roundtrip
           [CallRegister (newPeerConnection ''A'' 64), CallRegister (newPeerConnection ''B'' 63),
            CallUnregister ''A''] newPeerSet) ''B'' \<noteq> None \<and>
   Peer newPeerSet ''A'' = None"
proof -
  let ?cs = "[CallRegister (newPeerConnection ''A'' 64), CallRegister (newPeerConnection ''B'' 63),
              CallUnregister ''A'']"
  have reg: "''A'' \<notin> registered ?cs {} \<and> ''B'' \<in> registered ?cs {}"
    by (simp add: newPeerConnection_def)
  have new: "Peer newPeerSet ''A'' = None"
    by (simp add: Peer_def newPeerSet_def)
  from reg new Peer_lookup [of newPeerSet "''A''" no_capacities no_roundtrip ?cs]
    Peer_lookup [of newPeerSet "''B''" no_capacities no_roundtrip ?cs]
  show ?thesis
    by blast
qed

subsection \<open>Idle peers\<close>

lemma idlePeers_loop_Done:
  "idlePeers_loop a b ic cap xs (idle, tps, n) = Done (idle', tps', n') \<Longrightarrow>
     idle' = idle @ filter (\<lambda>p. a \<le> version p \<and> version p \<le> b \<and> ic p) xs \<and>
     map Done tps' =
       map Done tps @ map cap (filter (\<lambda>p. a \<le> version p \<and> version p \<le> b \<and> ic p) xs) \<and>
     n' = n + int (length (filter (\<lambda>p. a \<le> version p \<and> version p \<le> b) xs))"
proof (induction xs arbitrary: idle tps n)
  case Nil
  then show ?case by simp
next
  case (Cons p xs)
  show ?case
  proof (cases "a \<le> version p \<and> version p \<le> b")
    case False
    with Cons.prems have "idlePeers_loop a b ic cap xs (idle, tps, n) = Done (idle', tps', n')"
      by auto
    from Cons.IH [OF this] False show ?thesis
      by auto
  next
    case True
    show ?thesis
    proof (cases "ic p")
      case False
      with True Cons.prems
      have "idlePeers_loop a b ic cap xs (idle, tps, n + 1) = Done (idle', tps', n')"
        by auto
      from Cons.IH [OF this] True False show ?thesis
        by auto
    next
      case ic: True
      show ?thesis
      proof (cases "cap p")
        case Panic
        with True ic Cons.prems show ?thesis
          by simp
      next
        case (Done c)
        with True ic Cons.prems
        have "idlePeers_loop a b ic cap xs (idle @ [p], tps @ [c], n + 1) = Done (idle', tps', n')"
          by simp
        from Cons.IH [OF this] True ic Done show ?thesis
          by auto
      qed
    qed
  qed
qed

lemma idlePeers_loop_Panic:
  "(idlePeers_loop a b ic cap xs (idle, tps, n) = Panic) =
     (\<exists>p \<in> set xs. a \<le> version p \<and> version p \<le> b \<and> ic p \<and> cap p = Panic)"
proof (induction xs arbitrary: idle tps n)
  case Nil
  show ?case by simp
next
  case (Cons p xs)
  show ?case
    by (cases "cap p") (auto simp: Cons.IH)
qed

lemma range_values_map:
  assumes "ranges m order"
  shows "range_values m order = map (\<lambda>k. the (m k)) order"
proof -
  have "\<forall>k \<in> set order. m k \<noteq> None"
    using assms by (auto simp: ranges_def)
  then have "filter (\<lambda>k. m k \<noteq> None) order = order"
    by (simp add: filter_id_conv)
  then show ?thesis
    by (simp add: range_values_def List.map_filter_def comp_def)
qed

lemma range_values_set:
  assumes "ranges m order"
  shows "set (range_values m order) = ran m"
proof -
  have "set (range_values m order) = (\<lambda>k. the (m k)) ` dom m"
    using assms by (simp add: range_values_map [OF assms] ranges_def)
  also have "\<dots> = ran m"
    by (auto simp: ran_def dom_def image_iff) force
  finally show ?thesis .
qed

lemma range_values_count:
  assumes "ranges m order"
  shows "length (filter P (range_values m order)) = card {k. \<exists>v. m k = Some v \<and> P v}"
proof -
  have d: "distinct order" and s: "set order = dom m"
    using assms by (simp_all add: ranges_def)
  have "length (filter P (range_values m order)) = length (filter (\<lambda>k. P (the (m k))) order)"
    by (simp add: range_values_map [OF assms] filter_map comp_def)
  also have "\<dots> = card ({k. P (the (m k))} \<inter> set order)"
    using d by (simp add: distinct_length_filter Int_commute)
  also have "{k. P (the (m k))} \<inter> set order = {k. \<exists>v. m k = Some v \<and> P v}"
    using s by auto
  finally show ?thesis .
qed

lemma Swap_zip:
  assumes "i < Len e" and "j < Len e" and "length (sort_p e) = length (sort_tp e)"
  shows "zip (sort_p (Swap e i j)) (sort_tp (Swap e i j)) =
           (zip (sort_p e) (sort_tp e))
             [i := zip (sort_p e) (sort_tp e) ! j, j := zip (sort_p e) (sort_tp e) ! i]"
  using assms by (simp add: Swap_def Len_def zip_update)

lemma swapped_zip:
  "swapped d e \<Longrightarrow> length (sort_p d) = length (sort_tp d) \<Longrightarrow>
     length (sort_p e) = length (sort_tp e) \<and> Len e = Len d \<and>
     mset (zip (sort_p e) (sort_tp e)) = mset (zip (sort_p d) (sort_tp d))"
proof (induction rule: swapped.induct)
  case (swapped_none d)
  then show ?case by simp
next
  case (swapped_Swap d e i j)
  then have ih: "length (sort_p e) = length (sort_tp e)" "Len e = Len d"
    "mset (zip (sort_p e) (sort_tp e)) = mset (zip (sort_p d) (sort_tp d))"
    by simp_all
  let ?z = "zip (sort_p e) (sort_tp e)"
  have len: "i < length ?z" "j < length ?z"
    using swapped_Swap.hyps ih by (simp_all add: Len_def)
  have "mset (zip (sort_p (Swap e i j)) (sort_tp (Swap e i j))) = mset (?z[i := ?z ! j, j := ?z ! i])"
    using Swap_zip [OF swapped_Swap.hyps(2,3) ih(1)] by simp
  also have "\<dots> = mset ?z"
    using len(2) len(1) by (rule mset_swap)
  finally have "mset (zip (sort_p (Swap e i j)) (sort_tp (Swap e i j))) = mset (zip (sort_p d) (sort_tp d))"
    using ih by simp
  moreover have "length (sort_p (Swap e i j)) = length (sort_tp (Swap e i j))"
    using ih by (simp add: Swap_def)
  moreover have "Len (Swap e i j) = Len d"
    using ih by (simp add: Swap_def Len_def)
  ultimately show ?case
    by simp
qed

lemma sorted_by_Less:
  assumes "length (sort_p e) = length (sort_tp e)"
  shows "(\<forall>j < Len e. \<forall>i < j. \<not> Less e j i) = sorted_wrt (\<lambda>x y. y \<le> x) (sort_tp e)"
  using assms by (auto simp: sorted_wrt_iff_nth_less Less_def Len_def not_less)

text \<open>
  Every data has an arrangement that \<open>sort.Sort\<close> may leave: selecting the greatest
  of the rest, position by position, reaches one by swaps.
\<close>

lemma swapped_Len:
  "swapped d e \<Longrightarrow> length (sort_p d) = length (sort_tp d) \<Longrightarrow>
     Len e = Len d \<and> length (sort_tp e) = Len d"
  using swapped_zip [of d e] by (simp add: Len_def)

lemma select_step:
  fixes tp :: "int list"
  assumes k: "k < length tp"
    and sorted: "\<forall>j < k. \<forall>i < j. tp ! j \<le> tp ! i"
    and above: "\<forall>i < k. \<forall>j. k \<le> j \<and> j < length tp \<longrightarrow> tp ! j \<le> tp ! i"
  shows "\<exists>m. k \<le> m \<and> m < length tp \<and>
           (\<forall>j < Suc k. \<forall>i < j. tp[k := tp ! m, m := tp ! k] ! j \<le> tp[k := tp ! m, m := tp ! k] ! i) \<and>
           (\<forall>i < Suc k. \<forall>j. Suc k \<le> j \<and> j < length tp \<longrightarrow>
              tp[k := tp ! m, m := tp ! k] ! j \<le> tp[k := tp ! m, m := tp ! k] ! i)"
proof -
  let ?S = "(\<lambda>j. tp ! j) ` {k..<length tp}"
  have "finite ?S" and "?S \<noteq> {}"
    using k by auto
  then have "Max ?S \<in> ?S"
    by (rule Max_in)
  then obtain m where m: "k \<le> m" "m < length tp" and mx: "tp ! m = Max ?S"
    by auto
  have top: "tp ! j \<le> tp ! m" if "k \<le> j" "j < length tp" for j
  proof -
    have "tp ! j \<in> ?S"
      using that by auto
    then have "tp ! j \<le> Max ?S"
      using \<open>finite ?S\<close> by (rule Max_ge [rotated])
    then show ?thesis
      by (simp add: mx)
  qed
  let ?tp = "tp[k := tp ! m, m := tp ! k]"
  have low: "?tp ! i = tp ! i" if "i < k" for i
    using that m by simp
  have at_k: "?tp ! k = tp ! m"
    using k m by (cases "k = m") simp_all
  have high: "\<exists>j'. k \<le> j' \<and> j' < length tp \<and> ?tp ! j = tp ! j'" if "k \<le> j" "j < length tp" for j
  proof (cases "j = m")
    case True
    then have "?tp ! j = tp ! k"
      using m by simp
    with k show ?thesis
      by auto
  next
    case False
    show ?thesis
    proof (cases "j = k")
      case True
      with at_k m show ?thesis
        by auto
    next
      case False
      with \<open>j \<noteq> m\<close> have "?tp ! j = tp ! j"
        by simp
      with that show ?thesis
        by auto
    qed
  qed
  have s: "\<forall>j < Suc k. \<forall>i < j. ?tp ! j \<le> ?tp ! i"
  proof (intro allI impI)
    fix j i
    assume j: "j < Suc k" and i: "i < j"
    show "?tp ! j \<le> ?tp ! i"
    proof (cases "j = k")
      case True
      with i have "i < k"
        by simp
      with above m have "tp ! m \<le> tp ! i"
        by simp
      with True \<open>i < k\<close> show ?thesis
        by (simp only: at_k low)
    next
      case False
      with j have "j < k"
        by simp
      with i sorted have "tp ! j \<le> tp ! i"
        by simp
      with \<open>j < k\<close> i show ?thesis
        by (simp only: low [of j] low [of i, OF less_trans [OF i \<open>j < k\<close>]])
    qed
  qed
  have a: "\<forall>i < Suc k. \<forall>j. Suc k \<le> j \<and> j < length tp \<longrightarrow> ?tp ! j \<le> ?tp ! i"
  proof (intro allI impI)
    fix i j
    assume i: "i < Suc k" and j: "Suc k \<le> j \<and> j < length tp"
    then have "k \<le> j" "j < length tp"
      by simp_all
    from high [OF this] obtain j' where j': "k \<le> j'" "j' < length tp" "?tp ! j = tp ! j'"
      by blast
    show "?tp ! j \<le> ?tp ! i"
    proof (cases "i = k")
      case True
      with top [OF j'(1,2)] j'(3) show ?thesis
        by (simp only: at_k)
    next
      case False
      with i have "i < k"
        by simp
      with above j' have "tp ! j' \<le> tp ! i"
        by simp
      with j'(3) \<open>i < k\<close> show ?thesis
        by (simp only: low)
    qed
  qed
  from m s a show ?thesis
    by blast
qed

lemma selection:
  assumes len: "length (sort_p d) = length (sort_tp d)"
  shows "k \<le> Len d \<Longrightarrow>
     \<exists>e. swapped d e \<and>
       (\<forall>j < k. \<forall>i < j. sort_tp e ! j \<le> sort_tp e ! i) \<and>
       (\<forall>i < k. \<forall>j. k \<le> j \<and> j < Len d \<longrightarrow> sort_tp e ! j \<le> sort_tp e ! i)"
proof (induction k)
  case 0
  have "swapped d d"
    by (rule swapped_none)
  then show ?case
    by auto
next
  case (Suc k)
  then obtain e where sw: "swapped d e"
    and sorted: "\<forall>j < k. \<forall>i < j. sort_tp e ! j \<le> sort_tp e ! i"
    and above: "\<forall>i < k. \<forall>j. k \<le> j \<and> j < Len d \<longrightarrow> sort_tp e ! j \<le> sort_tp e ! i"
    by auto
  from swapped_Len [OF sw len] have le: "Len e = Len d" "length (sort_tp e) = Len d"
    by simp_all
  have k: "k < length (sort_tp e)"
    using Suc.prems le by simp
  from select_step [OF k sorted] above le
  obtain m where m: "k \<le> m" "m < length (sort_tp e)"
    and s: "\<forall>j < Suc k. \<forall>i < j.
              (sort_tp e)[k := sort_tp e ! m, m := sort_tp e ! k] ! j \<le>
              (sort_tp e)[k := sort_tp e ! m, m := sort_tp e ! k] ! i"
    and a: "\<forall>i < Suc k. \<forall>j. Suc k \<le> j \<and> j < length (sort_tp e) \<longrightarrow>
              (sort_tp e)[k := sort_tp e ! m, m := sort_tp e ! k] ! j \<le>
              (sort_tp e)[k := sort_tp e ! m, m := sort_tp e ! k] ! i"
    by auto
  have tp: "sort_tp (Swap e k m) = (sort_tp e)[k := sort_tp e ! m, m := sort_tp e ! k]"
    by (simp add: Swap_def)
  have "swapped d (Swap e k m)"
    using sw k m le by (intro swapped_Swap) simp_all
  with s a le show ?case
    unfolding tp [symmetric] by auto
qed

lemma sort_Sort_total:
  assumes "length xs = length ys"
  shows "\<exists>e. sort_Sort \<lparr>sort_p = xs, sort_tp = ys\<rparr> e"
proof -
  let ?d = "\<lparr>sort_p = xs, sort_tp = ys\<rparr>"
  have len: "length (sort_p ?d) = length (sort_tp ?d)"
    using assms by simp
  from selection [OF len, of "Len ?d"]
  obtain e where sw: "swapped ?d e"
    and sorted: "\<forall>j < Len ?d. \<forall>i < j. sort_tp e ! j \<le> sort_tp e ! i"
    by auto
  from swapped_Len [OF sw len] have "Len e = Len ?d"
    by simp
  with sw sorted have "sort_Sort ?d e"
    by (simp add: sort_Sort_def Less_def not_less)
  then show ?thesis ..
qed

lemma idlePeers_Panic:
  assumes "ranges (peers ps) order"
  shows "(idlePeers order sortf ps a b ic cap = Panic) =
           (\<exists>p \<in> ran (peers ps). a \<le> version p \<and> version p \<le> b \<and> ic p \<and> cap p = Panic)"
proof -
  have "(idlePeers order sortf ps a b ic cap = Panic) =
          (idlePeers_loop a b ic cap (range_values (peers ps) order) ([], [], 0) = Panic)"
    by (simp add: idlePeers_def split: outcome.splits)
  then show ?thesis
    by (simp only: idlePeers_loop_Panic range_values_set [OF assms])
qed

lemma idlePeers_Done:
  assumes r: "ranges (peers ps) order"
    and scan: "idlePeers_loop a b ic cap (range_values (peers ps) order) ([], [], 0) =
                 Done (idle, tps, n)"
  shows "idlePeers order sortf ps a b ic cap =
           Done (sort_p (sortf \<lparr>sort_p = idle, sort_tp = tps\<rparr>), n)"
    and "idle = filter (\<lambda>p. a \<le> version p \<and> version p \<le> b \<and> ic p) (range_values (peers ps) order)"
    and "map cap idle = map Done tps"
    and "n = int (card {k. \<exists>p. peers ps k = Some p \<and> a \<le> version p \<and> version p \<le> b})"
    and "length idle = card {k. \<exists>p. peers ps k = Some p \<and> a \<le> version p \<and> version p \<le> b \<and> ic p}"
    and "set idle = {p \<in> ran (peers ps). a \<le> version p \<and> version p \<le> b \<and> ic p}"
proof -
  show "idlePeers order sortf ps a b ic cap =
           Done (sort_p (sortf \<lparr>sort_p = idle, sort_tp = tps\<rparr>), n)"
    by (simp add: idlePeers_def scan)
  from idlePeers_loop_Done [OF scan]
  have i: "idle = filter (\<lambda>p. a \<le> version p \<and> version p \<le> b \<and> ic p) (range_values (peers ps) order)"
    and t: "map Done tps = map cap idle"
    and c: "n = int (length (filter (\<lambda>p. a \<le> version p \<and> version p \<le> b) (range_values (peers ps) order)))"
    by simp_all
  show "idle = filter (\<lambda>p. a \<le> version p \<and> version p \<le> b \<and> ic p) (range_values (peers ps) order)"
    by (rule i)
  show "map cap idle = map Done tps"
    using t by simp
  show "n = int (card {k. \<exists>p. peers ps k = Some p \<and> a \<le> version p \<and> version p \<le> b})"
    using c by (simp only: range_values_count [OF r])
  show "length idle = card {k. \<exists>p. peers ps k = Some p \<and> a \<le> version p \<and> version p \<le> b \<and> ic p}"
    unfolding i by (rule range_values_count [OF r])
  show "set idle = {p \<in> ran (peers ps). a \<le> version p \<and> version p \<le> b \<and> ic p}"
    unfolding i by (auto simp: range_values_set [OF r])
qed

lemma sort_Sort_result:
  assumes srt: "sort_Sort \<lparr>sort_p = idle, sort_tp = tps\<rparr> e"
    and caps: "map cap idle = map Done tps"
  shows "mset (sort_p e) = mset idle"
    and "map cap (sort_p e) = map Done (sort_tp e)"
    and "sorted_wrt (\<lambda>x y. y \<le> x) (sort_tp e)"
proof -
  let ?d = "\<lparr>sort_p = idle, sort_tp = tps\<rparr>"
  have len_d: "length (sort_p ?d) = length (sort_tp ?d)"
    using caps by (simp add: map_eq_imp_length_eq [OF caps])
  from srt have sw: "swapped ?d e" and ord: "\<forall>j < Len e. \<forall>i < j. \<not> Less e j i"
    by (simp_all add: sort_Sort_def)
  from swapped_zip [OF sw len_d]
  have len_e: "length (sort_p e) = length (sort_tp e)"
    and ms: "mset (zip (sort_p e) (sort_tp e)) = mset (zip idle tps)"
    by simp_all
  have "mset (sort_p e) = image_mset fst (mset (zip (sort_p e) (sort_tp e)))"
    using len_e by (simp flip: mset_map)
  also have "\<dots> = image_mset fst (mset (zip idle tps))"
    by (simp only: ms)
  also have "\<dots> = mset idle"
    using len_d by (simp flip: mset_map)
  finally show "mset (sort_p e) = mset idle" .
  have pairs_d: "\<forall>(p, c) \<in> set (zip idle tps). cap p = Done c"
  proof -
    have "list_all2 (\<lambda>p c. cap p = Done c) idle tps"
      using caps by (simp add: list_all2_conv_all_nth map_eq_imp_length_eq [OF caps])
        (metis length_map nth_map)
    then show ?thesis
      by (simp add: list_all2_iff)
  qed
  have "set (zip (sort_p e) (sort_tp e)) = set (zip idle tps)"
    using ms by (rule mset_eq_setD)
  with pairs_d have "\<forall>(p, c) \<in> set (zip (sort_p e) (sort_tp e)). cap p = Done c"
    by simp
  with len_e have "list_all2 (\<lambda>p c. cap p = Done c) (sort_p e) (sort_tp e)"
    by (simp add: list_all2_iff)
  then show "map cap (sort_p e) = map Done (sort_tp e)"
    by (simp add: list_all2_conv_all_nth list_eq_iff_nth_eq)
  show "sorted_wrt (\<lambda>x y. y \<le> x) (sort_tp e)"
    using ord sorted_by_Less [OF len_e] by simp
qed

lemma measured_simps:
  "version (measured i v kind items) = v"
  "headerIdle (measured i v kind items) = False"
  "receiptIdle (measured i v kind items) = False"
  "id' (measured i v kind items) = i"
  "0 < items \<Longrightarrow> throughput example_Capacity kind (measured i v kind items) = Done items"
  by (simp_all add: measured_def newPeerConnection_def throughput_def example_Capacity_def
      Update_def NewTracker_def Second_def)

lemma measured_eq:
  "(measured i v kind items = measured i' v' kind' items') =
     (i = i' \<and> v = v' \<and> kind = kind' \<and> items = items')"
  by (auto simp: measured_def newPeerConnection_def Update_def NewTracker_def)

lemma Swap_lists:
  "Swap \<lparr>sort_p = xs, sort_tp = ys\<rparr> i j =
     \<lparr>sort_p = xs[i := xs ! j, j := xs ! i], sort_tp = ys[i := ys ! j, j := ys ! i]\<rparr>"
  by (simp add: Swap_def)

lemma sort_Sort_lists:
  assumes "swapped \<lparr>sort_p = xs, sort_tp = ys\<rparr> e" and "length xs = length ys"
    and "sorted_wrt (\<lambda>x y. y \<le> x) (sort_tp e)"
  shows "sort_Sort \<lparr>sort_p = xs, sort_tp = ys\<rparr> e"
proof -
  have "length (sort_p e) = length (sort_tp e)"
    using swapped_zip [OF assms(1)] assms(2) by simp
  from sorted_by_Less [OF this] assms(1,3) show ?thesis
    by (simp add: sort_Sort_def)
qed

lemma swapped_two:
  assumes "i < length xs" "j < length xs" "k < length xs" "l < length xs"
  shows "swapped \<lparr>sort_p = xs, sort_tp = ys\<rparr> (Swap (Swap \<lparr>sort_p = xs, sort_tp = ys\<rparr> i j) k l)"
proof -
  let ?d = "\<lparr>sort_p = xs, sort_tp = ys\<rparr>"
  have one: "swapped ?d (Swap ?d i j)"
    by (rule swapped_Swap [OF swapped_none]) (simp_all add: Len_def assms)
  show ?thesis
    by (rule swapped_Swap [OF one]) (simp_all add: Len_def Swap_def assms)
qed

text \<open>
  C3. For every peer set and every order of the visit, \<open>idlePeers\<close> panics only on a
  selected session without a tracker; otherwise it returns the registered sessions whose
  version lies within the bounds and that are idle, each once, and the number of
  registered sessions whose version lies within the bounds, idle or not. This holds of
  whatever \<open>sort.Sort\<close> may leave, and there always is such an arrangement.
\<close>

theorem idlePeers_selects:
  assumes "ranges (peers ps) order"
  shows
    "(idlePeers order sortf ps minProtocol maxProtocol idleCheck capacity = Panic) =
       (\<exists>p \<in> ran (peers ps).
          minProtocol \<le> version p \<and> version p \<le> maxProtocol \<and> idleCheck p \<and> capacity p = Panic) \<and>
     (\<forall>idle tps n.
        idlePeers_loop minProtocol maxProtocol idleCheck capacity
          (range_values (peers ps) order) ([], [], 0) = Done (idle, tps, n) \<and>
        sort_Sort \<lparr>sort_p = idle, sort_tp = tps\<rparr> (sortf \<lparr>sort_p = idle, sort_tp = tps\<rparr>) \<longrightarrow>
        (\<exists>res. idlePeers order sortf ps minProtocol maxProtocol idleCheck capacity = Done (res, n) \<and>
           set res =
             {p \<in> ran (peers ps).
                minProtocol \<le> version p \<and> version p \<le> maxProtocol \<and> idleCheck p} \<and>
           length res =
             card {k. \<exists>p. peers ps k = Some p \<and>
                       minProtocol \<le> version p \<and> version p \<le> maxProtocol \<and> idleCheck p} \<and>
           n = int (card {k. \<exists>p. peers ps k = Some p \<and>
                               minProtocol \<le> version p \<and> version p \<le> maxProtocol}))) \<and>
     (\<forall>idle tps n.
        idlePeers_loop minProtocol maxProtocol idleCheck capacity
          (range_values (peers ps) order) ([], [], 0) = Done (idle, tps, n) \<longrightarrow>
        (\<exists>e. sort_Sort \<lparr>sort_p = idle, sort_tp = tps\<rparr> e))"
proof (intro conjI allI impI)
  show "(idlePeers order sortf ps minProtocol maxProtocol idleCheck capacity = Panic) =
       (\<exists>p \<in> ran (peers ps).
          minProtocol \<le> version p \<and> version p \<le> maxProtocol \<and> idleCheck p \<and> capacity p = Panic)"
    by (rule idlePeers_Panic [OF assms])
next
  fix idle tps n
  assume h: "idlePeers_loop minProtocol maxProtocol idleCheck capacity
          (range_values (peers ps) order) ([], [], 0) = Done (idle, tps, n) \<and>
        sort_Sort \<lparr>sort_p = idle, sort_tp = tps\<rparr> (sortf \<lparr>sort_p = idle, sort_tp = tps\<rparr>)"
  then have scan: "idlePeers_loop minProtocol maxProtocol idleCheck capacity
          (range_values (peers ps) order) ([], [], 0) = Done (idle, tps, n)"
    and srt: "sort_Sort \<lparr>sort_p = idle, sort_tp = tps\<rparr> (sortf \<lparr>sort_p = idle, sort_tp = tps\<rparr>)"
    by simp_all
  let ?res = "sort_p (sortf \<lparr>sort_p = idle, sort_tp = tps\<rparr>)"
  note d = idlePeers_Done [OF assms scan]
  have m: "mset ?res = mset idle"
    by (rule sort_Sort_result(1) [OF srt d(3)])
  have "set ?res = set idle"
    using m by (rule mset_eq_setD)
  moreover have "length ?res = length idle"
    using m by (rule mset_eq_length)
  ultimately show "\<exists>res. idlePeers order sortf ps minProtocol maxProtocol idleCheck capacity = Done (res, n) \<and>
           set res =
             {p \<in> ran (peers ps).
                minProtocol \<le> version p \<and> version p \<le> maxProtocol \<and> idleCheck p} \<and>
           length res =
             card {k. \<exists>p. peers ps k = Some p \<and>
                       minProtocol \<le> version p \<and> version p \<le> maxProtocol \<and> idleCheck p} \<and>
           n = int (card {k. \<exists>p. peers ps k = Some p \<and>
                               minProtocol \<le> version p \<and> version p \<le> maxProtocol})"
    using d(1) d(4) d(5) d(6) by simp
next
  fix idle tps n
  assume scan: "idlePeers_loop minProtocol maxProtocol idleCheck capacity
          (range_values (peers ps) order) ([], [], 0) = Done (idle, tps, n)"
  have "map capacity idle = map Done tps"
    by (rule idlePeers_Done(3) [OF assms scan])
  then have "length idle = length tps"
    by (rule map_eq_imp_length_eq)
  then show "\<exists>e. sort_Sort \<lparr>sort_p = idle, sort_tp = tps\<rparr> e"
    by (rule sort_Sort_total)
qed

theorem idlePeers_selects_witness:
  "ranges (peers versions_set) [''Z'', ''X'', ''Y''] \<and>
   idlePeers_loop 63 65 (\<lambda>p. \<not> headerIdle p) (throughput example_Capacity BlockHeadersMsg)
     (range_values (peers versions_set) [''Z'', ''X'', ''Y'']) ([], [], 0) =
     Done ([measured ''Z'' 65 BlockHeadersMsg 10], [10], 2) \<and>
   sort_Sort \<lparr>sort_p = [measured ''Z'' 65 BlockHeadersMsg 10], sort_tp = [10]\<rparr>
     \<lparr>sort_p = [measured ''Z'' 65 BlockHeadersMsg 10], sort_tp = [10]\<rparr> \<and>
   HeaderIdlePeers example_Capacity [''Z'', ''X'', ''Y''] (\<lambda>d. d) versions_set =
     Done ([measured ''Z'' 65 BlockHeadersMsg 10], 2) \<and>
   card {k. \<exists>p. peers versions_set k = Some p \<and> 63 \<le> version p \<and> version p \<le> 65} = 2"
proof -
  let ?z = "measured ''Z'' 65 BlockHeadersMsg 10"
  let ?cap = "throughput example_Capacity BlockHeadersMsg"
  have r: "ranges (peers versions_set) [''Z'', ''X'', ''Y'']"
    by (auto simp: ranges_def versions_set_def)
  have v: "range_values (peers versions_set) [''Z'', ''X'', ''Y''] =
             [?z, measured ''X'' 61 BlockHeadersMsg 10,
              (measured ''Y'' 63 BlockHeadersMsg 10)\<lparr>headerIdle := True\<rparr>]"
    by (simp add: range_values_def List.map_filter_def versions_set_def)
  have scan: "idlePeers_loop 63 65 (\<lambda>p. \<not> headerIdle p) ?cap
     (range_values (peers versions_set) [''Z'', ''X'', ''Y'']) ([], [], 0) = Done ([?z], [10], 2)"
    by (simp add: v measured_simps)
  have srt: "sort_Sort \<lparr>sort_p = [?z], sort_tp = [10]\<rparr> ((\<lambda>d. d) \<lparr>sort_p = [?z], sort_tp = [10]\<rparr>)"
    by (rule sort_Sort_lists) (simp_all add: swapped_none)
  from idlePeers_selects [OF r, of "\<lambda>d. d" 63 65 "\<lambda>p. \<not> headerIdle p" ?cap] scan srt
  have "\<exists>res. idlePeers [''Z'', ''X'', ''Y''] (\<lambda>d. d) versions_set 63 65 (\<lambda>p. \<not> headerIdle p) ?cap =
                 Done (res, 2) \<and>
          2 = int (card {k. \<exists>p. peers versions_set k = Some p \<and> 63 \<le> version p \<and> version p \<le> 65})"
    by blast
  then have c: "card {k. \<exists>p. peers versions_set k = Some p \<and> 63 \<le> version p \<and> version p \<le> 65} = 2"
    by auto
  have "HeaderIdlePeers example_Capacity [''Z'', ''X'', ''Y''] (\<lambda>d. d) versions_set = Done ([?z], 2)"
    by (simp add: HeaderIdlePeers_def idlePeers_def scan)
  with r scan srt c show ?thesis
    by simp
qed

text \<open>
  C4, as amended. The list returned is a rearrangement of the idle candidates in
  descending order of capacity: no session comes before one of greater capacity. The order
  among sessions of equal capacity is whatever \<open>sort.Sort\<close> leaves, not that of the
  visit.
\<close>

theorem idlePeers_descending:
  assumes "ranges (peers ps) order"
    and "idlePeers_loop minProtocol maxProtocol idleCheck capacity
           (range_values (peers ps) order) ([], [], 0) = Done (idle, tps, n)"
    and "sort_Sort \<lparr>sort_p = idle, sort_tp = tps\<rparr> (sortf \<lparr>sort_p = idle, sort_tp = tps\<rparr>)"
  shows
    "\<exists>res cs. idlePeers order sortf ps minProtocol maxProtocol idleCheck capacity = Done (res, n) \<and>
       map capacity res = map Done cs \<and>
       sorted_wrt (\<lambda>x y. y \<le> x) cs \<and>
       mset res = mset idle \<and>
       idle = filter (\<lambda>p. minProtocol \<le> version p \<and> version p \<le> maxProtocol \<and> idleCheck p)
                (range_values (peers ps) order)"
proof -
  let ?e = "sortf \<lparr>sort_p = idle, sort_tp = tps\<rparr>"
  note d = idlePeers_Done [OF assms(1,2)]
  note s = sort_Sort_result [OF assms(3) d(3)]
  from d(1) d(2) s show ?thesis
    by blast
qed

theorem idlePeers_descending_witness:
  "ranges (peers ranked_set) [''A'', ''B'', ''C''] \<and>
   idlePeers_loop 63 65 (\<lambda>p. \<not> headerIdle p) (throughput example_Capacity BlockHeadersMsg)
     (range_values (peers ranked_set) [''A'', ''B'', ''C'']) ([], [], 0) =
     Done ([measured ''A'' 64 BlockHeadersMsg 10, measured ''B'' 64 BlockHeadersMsg 50,
            measured ''C'' 64 BlockHeadersMsg 30], [10, 50, 30], 3) \<and>
   sort_Sort
     \<lparr>sort_p = [measured ''A'' 64 BlockHeadersMsg 10, measured ''B'' 64 BlockHeadersMsg 50,
                measured ''C'' 64 BlockHeadersMsg 30], sort_tp = [10, 50, 30]\<rparr>
     (ranked_sort
        \<lparr>sort_p = [measured ''A'' 64 BlockHeadersMsg 10, measured ''B'' 64 BlockHeadersMsg 50,
                   measured ''C'' 64 BlockHeadersMsg 30], sort_tp = [10, 50, 30]\<rparr>) \<and>
   HeaderIdlePeers example_Capacity [''A'', ''B'', ''C''] ranked_sort ranked_set =
     Done ([measured ''B'' 64 BlockHeadersMsg 50, measured ''C'' 64 BlockHeadersMsg 30,
            measured ''A'' 64 BlockHeadersMsg 10], 3) \<and>
   map (throughput example_Capacity BlockHeadersMsg)
     [measured ''B'' 64 BlockHeadersMsg 50, measured ''C'' 64 BlockHeadersMsg 30,
      measured ''A'' 64 BlockHeadersMsg 10] = map Done [50, 30, 10]"
proof -
  let ?a = "measured ''A'' 64 BlockHeadersMsg 10"
  let ?b = "measured ''B'' 64 BlockHeadersMsg 50"
  let ?c = "measured ''C'' 64 BlockHeadersMsg 30"
  let ?cap = "throughput example_Capacity BlockHeadersMsg"
  let ?d = "\<lparr>sort_p = [?a, ?b, ?c], sort_tp = [10, 50, 30]\<rparr>"
  have r: "ranges (peers ranked_set) [''A'', ''B'', ''C'']"
    by (auto simp: ranges_def ranked_set_def)
  have v: "range_values (peers ranked_set) [''A'', ''B'', ''C''] = [?a, ?b, ?c]"
    by (simp add: range_values_def List.map_filter_def ranked_set_def)
  have scan: "idlePeers_loop 63 65 (\<lambda>p. \<not> headerIdle p) ?cap
     (range_values (peers ranked_set) [''A'', ''B'', ''C'']) ([], [], 0) =
       Done ([?a, ?b, ?c], [10, 50, 30], 3)"
    by (simp add: v measured_simps)
  have e: "ranked_sort ?d = \<lparr>sort_p = [?b, ?c, ?a], sort_tp = [50, 30, 10]\<rparr>"
    by (simp add: ranked_sort_def Swap_lists)
  have sw: "swapped ?d (ranked_sort ?d)"
    unfolding ranked_sort_def by (rule swapped_two) simp_all
  have srt: "sort_Sort ?d (ranked_sort ?d)"
    using sw by (rule sort_Sort_lists) (simp_all add: e)
  from idlePeers_descending [where sortf = ranked_sort, OF r scan srt]
  obtain res cs where
    res: "idlePeers [''A'', ''B'', ''C''] ranked_sort ranked_set 63 65 (\<lambda>p. \<not> headerIdle p) ?cap =
            Done (res, 3)"
    and caps: "map ?cap res = map Done cs"
    by blast
  have h: "HeaderIdlePeers example_Capacity [''A'', ''B'', ''C''] ranked_sort ranked_set =
          Done ([?b, ?c, ?a], 3)"
    by (simp add: HeaderIdlePeers_def idlePeers_def scan e)
  with res have "res = [?b, ?c, ?a]"
    by (simp add: HeaderIdlePeers_def)
  with caps have "map ?cap [?b, ?c, ?a] = map Done cs"
    by simp
  moreover have "map ?cap [?b, ?c, ?a] = map Done [50, 30, 10]"
    by (simp add: measured_simps)
  ultimately show ?thesis
    using r scan srt h by simp
qed

lemma tied_range:
  "ranges (peers tied_set) tied_names"
  "range_values (peers tied_set) tied_names = tied_sessions"
  by (simp_all add: ranges_def range_values_def List.map_filter_def tied_set_def tied_names_def
      tied_sessions_def tied_caps_def dom_map_of_conv_image_fst)

lemma tied_scan:
  "idlePeers_loop 63 65 (\<lambda>p. \<not> headerIdle p) (throughput example_Capacity BlockHeadersMsg)
     tied_sessions ([], [], 0) = Done (tied_sessions, tied_caps, 13)"
  by (simp add: tied_sessions_def tied_names_def tied_caps_def measured_simps)

lemma tied_sorted:
  "tied_sort \<lparr>sort_p = tied_sessions, sort_tp = tied_caps\<rparr> =
     \<lparr>sort_p = tied_result, sort_tp = [5, 5, 5, 5, 5, 5, 5, 5, 5, 5, 5, 5, 4]\<rparr>"
  by (simp add: tied_sort_def Swap_lists tied_sessions_def tied_names_def tied_caps_def
      tied_result_def)

text \<open>
  C4 as stated fails: here sessions \<open>a\<close> and \<open>g\<close> have the same capacity, the visit
  yields \<open>a\<close> before \<open>g\<close>, and the list returned has \<open>g\<close> before \<open>a\<close>.
\<close>

theorem tie_order_counterexample:
  "ranges (peers tied_set) tied_names \<and>
   idlePeers_loop 63 65 (\<lambda>p. \<not> headerIdle p) (throughput example_Capacity BlockHeadersMsg)
     (range_values (peers tied_set) tied_names) ([], [], 0) = Done (tied_sessions, tied_caps, 13) \<and>
   sort_Sort \<lparr>sort_p = tied_sessions, sort_tp = tied_caps\<rparr>
     (tied_sort \<lparr>sort_p = tied_sessions, sort_tp = tied_caps\<rparr>) \<and>
   HeaderIdlePeers example_Capacity tied_names tied_sort tied_set = Done (tied_result, 13) \<and>
   throughput example_Capacity BlockHeadersMsg (measured ''a'' 64 BlockHeadersMsg 5) = Done 5 \<and>
   throughput example_Capacity BlockHeadersMsg (measured ''g'' 64 BlockHeadersMsg 5) = Done 5 \<and>
   filter (\<lambda>p. p \<in> {measured ''a'' 64 BlockHeadersMsg 5, measured ''g'' 64 BlockHeadersMsg 5})
     tied_sessions = [measured ''a'' 64 BlockHeadersMsg 5, measured ''g'' 64 BlockHeadersMsg 5] \<and>
   filter (\<lambda>p. p \<in> {measured ''a'' 64 BlockHeadersMsg 5, measured ''g'' 64 BlockHeadersMsg 5})
     tied_result = [measured ''g'' 64 BlockHeadersMsg 5, measured ''a'' 64 BlockHeadersMsg 5]"
proof -
  let ?d = "\<lparr>sort_p = tied_sessions, sort_tp = tied_caps\<rparr>"
  have len: "length tied_sessions = 13"
    by (simp add: tied_sessions_def tied_names_def tied_caps_def)
  have "swapped ?d (tied_sort ?d)"
    unfolding tied_sort_def by (rule swapped_two) (simp_all add: len)
  then have srt: "sort_Sort ?d (tied_sort ?d)"
    by (rule sort_Sort_lists) (simp_all add: len tied_sorted, simp add: tied_caps_def)
  have h: "HeaderIdlePeers example_Capacity tied_names tied_sort tied_set = Done (tied_result, 13)"
    by (simp add: HeaderIdlePeers_def idlePeers_def tied_range tied_scan tied_sorted)
  have f1: "filter (\<lambda>p. p \<in> {measured ''a'' 64 BlockHeadersMsg 5, measured ''g'' 64 BlockHeadersMsg 5})
     tied_sessions = [measured ''a'' 64 BlockHeadersMsg 5, measured ''g'' 64 BlockHeadersMsg 5]"
    by (simp add: tied_sessions_def tied_names_def tied_caps_def measured_eq)
  have f2: "filter (\<lambda>p. p \<in> {measured ''a'' 64 BlockHeadersMsg 5, measured ''g'' 64 BlockHeadersMsg 5})
     tied_result = [measured ''g'' 64 BlockHeadersMsg 5, measured ''a'' 64 BlockHeadersMsg 5]"
    by (simp add: tied_result_def measured_eq)
  show ?thesis
    using tied_range tied_scan srt h f1 f2 by (simp add: measured_simps)
qed



end
